theory Spec2Isabelle
  imports Main "HOL-Library.Word"
begin

unbundle bit_operations_syntax

section \<open>Machine types\<close>

text \<open>
  The embedding follows \<^verbatim>\<open>grub-core/kern/misc.c\<close> as built for a 64-bit x86 target
  that is not an EFI machine: \<^verbatim>\<open>grub_size_t\<close>, \<^verbatim>\<open>unsigned long\<close> and
  \<^verbatim>\<open>unsigned long long\<close> are 64 bits wide, \<^verbatim>\<open>int\<close> and \<^verbatim>\<open>unsigned\<close> are 32 bits
  wide, plain \<^verbatim>\<open>char\<close> is signed, and the blocks under
  \<^verbatim>\<open>#if defined(GRUB_MACHINE_EFI)\<close> are not compiled.
\<close>

type_synonym u64 = "64 word"
type_synonym u32 = "32 word"

section \<open>Software division: \<^verbatim>\<open>grub_divmod64\<close>\<close>

text \<open>
  The body of \<^verbatim>\<open>while (bits--)\<close>: the first argument is the number of iterations
  still to run, the others are the variables \<^verbatim>\<open>n\<close>, \<^verbatim>\<open>d\<close>, \<^verbatim>\<open>q\<close> and \<^verbatim>\<open>m\<close>.
\<close>

fun divmod64_loop :: "nat \<Rightarrow> u64 \<Rightarrow> u64 \<Rightarrow> u64 \<Rightarrow> u64 \<Rightarrow> u64 \<times> u64" where
  "divmod64_loop 0 n d q m = (q, m)"
| "divmod64_loop (Suc bits) n d q m =
     (let m1 = push_bit 1 m;
          m2 = (if n AND push_bit 63 1 \<noteq> 0 then m1 OR 1 else m1);
          q1 = push_bit 1 q;
          n1 = push_bit 1 n
      in if m2 \<ge> d then divmod64_loop bits n1 d (q1 OR 1) (m2 - d)
         else divmod64_loop bits n1 d q1 m2)"

text \<open>
  \<^verbatim>\<open>grub_divmod64 (n, d, &r)\<close>: the result is the pair of the returned quotient and
  the value stored through \<^verbatim>\<open>r\<close>. The first argument is the build constant
  \<^verbatim>\<open>GRUB_DIVISION_IN_SOFTWARE\<close>; without it the 32-bit fast path divides in
  hardware, where a zero divisor traps: that is the result \<open>None\<close>.
\<close>

definition grub_divmod64 :: "bool \<Rightarrow> u64 \<Rightarrow> u64 \<Rightarrow> (u64 \<times> u64) option" where
  "grub_divmod64 division_in_software n d =
     (if \<not> division_in_software \<and> n < 0xffffffff \<and> d < 0xffffffff
      then (if (ucast d :: u32) = 0 then None
            else Some (ucast ((ucast n :: u32) div (ucast d :: u32)),
                       ucast ((ucast n :: u32) mod (ucast d :: u32))))
      else Some (divmod64_loop 64 n d 0 0))"

subsection \<open>Correctness of the division loop\<close>

lemma unat_lt64: "unat (w::u64) < 2 ^ 64"
proof -
  have "unat w < 2 ^ LENGTH(64)" by (rule unsigned_less)
  then show ?thesis by simp
qed

lemma top_bit: "(push_bit (64 - Suc j) (n0::u64) AND push_bit 63 1 \<noteq> 0) = bit n0 j" if "Suc j \<le> 64"
proof -
  have "(push_bit (64 - Suc j) n0 AND push_bit 63 1 \<noteq> 0) = bit (push_bit (64 - Suc j) n0) 63"
    by (metis bit_iff_and_push_bit_not_eq_0)
  also have "\<dots> = bit n0 j"
    using that by (simp add: bit_push_bit_iff)
  finally show ?thesis .
qed

lemma unat_shl1: "unat (m::u64) < 2 ^ 63 \<Longrightarrow> unat (push_bit 1 m) = 2 * unat m"
proof -
  assume a: "unat m < 2 ^ 63"
  have "unat (2::u64) * unat m < 2 ^ LENGTH(64)" using a by simp
  then have "unat (2 * m) = unat (2::u64) * unat m" by (simp only: unat_mult_lem)
  then show ?thesis by (simp add: push_bit_eq_mult mult.commute)
qed

lemma unat_shl1_or: "unat (m::u64) < 2 ^ 63 \<Longrightarrow> unat (push_bit 1 m OR 1) = 2 * unat m + 1"
proof -
  assume a: "unat m < 2 ^ 63"
  have e: "push_bit 1 m OR 1 = push_bit 1 m + 1"
    by (simp add: or_one_eq)
  have "unat (push_bit 1 m) + unat (1::u64) < 2 ^ LENGTH(64)"
    using a unat_shl1[OF a] by simp
  then have "unat (push_bit 1 m + 1) = unat (push_bit 1 m) + unat (1::u64)"
    by (simp only: unat_add_lem)
  then show ?thesis using e unat_shl1[OF a] by simp
qed

lemma prefix_step: "(N::nat) div 2 ^ j = 2 * (N div 2 ^ Suc j) + of_bool (odd (N div 2 ^ j))"
proof -
  have "N div 2 ^ Suc j = (N div 2 ^ j) div 2"
    by (simp only: power_Suc2 div_mult2_eq)
  then show ?thesis by (simp add: mod_2_eq_odd[symmetric])
qed

lemma bit_unat_odd: "bit (n0::u64) j = odd (unat n0 div 2 ^ j)"
proof -
  have "bit n0 j = bit (unat n0) j" by (simp add: bit_unsigned_iff)
  then show ?thesis by (simp add: bit_iff_odd)
qed

lemma divmod64_loop_inv:
  assumes "0 < unat d" and "k \<le> 64" and "unat m < unat d"
    and "unat q * unat d + unat m = unat n0 div 2 ^ k"
    and "n = push_bit (64 - k) n0"
  shows "\<exists>q' m'. divmod64_loop k n d q m = (q', m') \<and>
           unat q' * unat d + unat m' = unat n0 \<and> unat m' < unat d"
  using assms
proof (induction k arbitrary: n q m)
  case 0
  then show ?case by simp
next
  case (Suc j)
  let ?P = "unat n0 div 2 ^ Suc j"
  let ?b = "bit n0 j"
  have lt: "unat n0 < 2 ^ 64" by (rule unat_lt64)
  have "(2::nat) ^ (63 - j) * 2 ^ Suc j = 2 ^ (63 - j + Suc j)"
    by (simp only: power_add)
  moreover have "63 - j + Suc j = 64" using Suc.prems(2) by arith
  ultimately have "(2::nat) ^ (63 - j) * 2 ^ Suc j = 2 ^ 64" by (simp only:)
  then have "unat n0 < 2 ^ (63 - j) * 2 ^ Suc j" using lt by (simp only:)
  then have "?P < 2 ^ (63 - j)" by (rule less_mult_imp_div_less)
  moreover have "(2::nat) ^ (63 - j) \<le> 2 ^ 63" by (rule power_increasing) simp_all
  ultimately have P63: "?P < 2 ^ 63" by (rule less_le_trans)
  have mle: "unat m \<le> ?P" using Suc.prems(4) by arith
  have qle: "unat q \<le> ?P"
  proof -
    have "unat q * 1 \<le> unat q * unat d" using Suc.prems(1) by (intro mult_le_mono2) simp
    then show ?thesis using Suc.prems(4) by arith
  qed
  have m63: "unat m < 2 ^ 63" and q63: "unat q < 2 ^ 63" using mle qle P63 by arith+
  have tb: "(n AND push_bit 63 1 \<noteq> 0) = ?b"
    using top_bit[OF Suc.prems(2)] Suc.prems(5) by simp
  define m2 where "m2 = (if n AND push_bit 63 1 \<noteq> 0 then push_bit 1 m OR 1 else push_bit 1 m)"
  have um2: "unat m2 = 2 * unat m + of_bool ?b"
    using tb unat_shl1[OF m63] unat_shl1_or[OF m63] by (simp add: m2_def)
  have n1: "push_bit 1 n = push_bit (64 - j) n0"
  proof -
    have "push_bit 1 (push_bit (64 - Suc j) n0) = push_bit (1 + (64 - Suc j)) n0"
      by (simp only: push_bit_push_bit)
    moreover have "1 + (64 - Suc j) = 64 - j" using Suc.prems(2) by arith
    ultimately show ?thesis using Suc.prems(5) by simp
  qed
  have pre: "unat n0 div 2 ^ j = 2 * ?P + of_bool ?b"
    using prefix_step[of "unat n0" j] by (simp add: bit_unat_odd)
  have jle: "j \<le> 64" using Suc.prems(2) by simp
  have step: "divmod64_loop (Suc j) n d q m =
      (if d \<le> m2 then divmod64_loop j (push_bit 1 n) d (push_bit 1 q OR 1) (m2 - d)
       else divmod64_loop j (push_bit 1 n) d (push_bit 1 q) m2)"
    unfolding m2_def by (simp only: divmod64_loop.simps Let_def)
  show ?case
  proof (cases "d \<le> m2")
    case True
    then have dle: "unat d \<le> unat m2" by (simp add: word_le_nat_alt)
    have a: "unat (m2 - d) = unat m2 - unat d" using True by (simp add: unat_sub)
    have b: "unat (m2 - d) < unat d" using a um2 Suc.prems(3) dle by (cases ?b) simp_all
    have c: "unat (push_bit 1 q OR 1) * unat d + unat (m2 - d) = unat n0 div 2 ^ j"
    proof -
      have "unat (push_bit 1 q OR 1) * unat d + unat (m2 - d)
              = (2 * unat q + 1) * unat d + (unat m2 - unat d)"
        by (simp only: unat_shl1_or[OF q63] a)
      also have "\<dots> = 2 * (unat q * unat d + unat m) + of_bool ?b"
        using dle um2 by (simp add: algebra_simps)
      also have "\<dots> = 2 * ?P + of_bool ?b" by (simp only: Suc.prems(4))
      also have "\<dots> = unat n0 div 2 ^ j" by (simp only: pre)
      finally show ?thesis .
    qed
    from Suc.IH[OF Suc.prems(1) jle b c n1] True
    show ?thesis by (simp only: step if_True)
  next
    case False
    then have b: "unat m2 < unat d" by (simp add: word_le_nat_alt)
    have c: "unat (push_bit 1 q) * unat d + unat m2 = unat n0 div 2 ^ j"
    proof -
      have "unat (push_bit 1 q) * unat d + unat m2 = (2 * unat q) * unat d + unat m2"
        by (simp only: unat_shl1[OF q63])
      also have "\<dots> = 2 * (unat q * unat d + unat m) + of_bool ?b"
        using um2 by (simp add: algebra_simps)
      also have "\<dots> = 2 * ?P + of_bool ?b" by (simp only: Suc.prems(4))
      also have "\<dots> = unat n0 div 2 ^ j" by (simp only: pre)
      finally show ?thesis .
    qed
    from Suc.IH[OF Suc.prems(1) jle b c n1] False
    show ?thesis by (simp only: step if_False)
  qed
qed

lemma divmod64_loop_correct:
  assumes "d \<noteq> 0"
  shows "\<exists>q m. divmod64_loop 64 n d 0 0 = (q, m) \<and>
           unat q * unat d + unat m = unat n \<and> unat m < unat d"
proof -
  have d: "0 < unat d" using assms by (simp add: unat_gt_0)
  have z: "unat (0::u64) * unat d + unat (0::u64) = unat n div 2 ^ 64"
    using unat_lt64[of n] by simp
  show ?thesis
    using divmod64_loop_inv[of d 64 0 0 n n, OF d _ _ z] d by simp
qed

lemma grub_divmod64_correct:
  assumes "d \<noteq> 0"
  shows "\<exists>q m. grub_divmod64 sw n d = Some (q, m) \<and>
           unat q * unat d + unat m = unat n \<and> unat m < unat d"
proof (cases "\<not> sw \<and> n < 0xffffffff \<and> d < 0xffffffff")
  case True
  then have n32: "unat n < 2 ^ 32" and d32: "unat d < 2 ^ 32"
    by (simp_all add: word_less_nat_alt)
  have un: "unat (ucast n :: u32) = unat n" and ud: "unat (ucast d :: u32) = unat d"
    using n32 d32 by (simp_all add: unsigned_ucast_eq take_bit_nat_eq_self)
  have up: "unat (ucast x :: u64) = unat x" for x :: u32
  proof -
    have "unat x < 2 ^ LENGTH(32)" by (rule unsigned_less)
    then show ?thesis by (simp add: unsigned_ucast_eq take_bit_nat_eq_self)
  qed
  have d0: "(ucast d :: u32) \<noteq> 0"
    using assms ud by (metis unat_eq_zero)
  have dpos: "0 < unat d" using assms by (simp add: unat_gt_0)
  have "unat (ucast ((ucast n :: u32) div ucast d) :: u64) = unat n div unat d"
    by (simp only: up unat_div un ud)
  moreover have "unat (ucast ((ucast n :: u32) mod ucast d) :: u64) = unat n mod unat d"
    by (simp only: up unat_mod un ud)
  ultimately show ?thesis
    using True d0 dpos by (simp add: grub_divmod64_def)
next
  case False
  then show ?thesis
    using divmod64_loop_correct[OF assms, of n] by (auto simp: grub_divmod64_def)
qed

lemma div_mod_unique_nat:
  fixes q d m n :: nat
  assumes "q * d + m = n" and "m < d"
  shows "q = n div d \<and> m = n mod d"
proof -
  have "0 < d" using assms(2) by simp
  then have "(q * d + m) div d = q" and "(q * d + m) mod d = m"
    using assms(2) by simp_all
  then show ?thesis using assms(1) by simp
qed

lemma grub_divmod64_div_mod:
  assumes "d \<noteq> 0"
  shows "grub_divmod64 sw n d = Some (n div d, n mod d)"
proof -
  obtain q m where e: "grub_divmod64 sw n d = Some (q, m)"
    and f: "unat q * unat d + unat m = unat n" and g: "unat m < unat d"
    using grub_divmod64_correct [OF assms, of sw n] by auto
  have "unat q = unat n div unat d \<and> unat m = unat n mod unat d"
    using f g by (rule div_mod_unique_nat)
  then have "unat q = unat (n div d) \<and> unat m = unat (n mod d)"
    by (simp only: unat_div unat_mod)
  then have "q = n div d \<and> m = n mod d" by (simp only: word_unat_eq_iff)
  then show ?thesis using e by simp
qed

text \<open>
  Claim C4. For all 64-bit \<open>n\<close> and \<open>d\<close> with \<open>d \<noteq> 0\<close>, in either build
  configuration, \<^verbatim>\<open>grub_divmod64\<close> returns (it does not trap) a quotient \<open>q\<close> and
  stores a remainder \<open>r\<close> with \<open>n = q * d + r\<close> over the naturals and \<open>r < d\<close>.
\<close>

theorem grub_divmod64_quotient_remainder:
  "d \<noteq> 0 \<Longrightarrow>
     \<exists>q r. grub_divmod64 sw n d = Some (q, r) \<and>
           unat n = unat q * unat d + unat r \<and> r < d"
  using grub_divmod64_correct [of d sw n] by (auto simp: word_less_nat_alt)

theorem grub_divmod64_quotient_remainder_witness:
  "(7 :: u64) \<noteq> 0 \<and> grub_divmod64 False 100 7 = Some (14, 2) \<and>
   grub_divmod64 True 100 7 = Some (14, 2) \<and>
   grub_divmod64 False 0xFFFFFFFFFFFFFFFF 10 = Some (0x1999999999999999, 5) \<and>
   (\<exists>q r. grub_divmod64 True 100 7 = Some (q, r) \<and>
          unat (100 :: u64) = unat q * unat (7 :: u64) + unat r \<and> r < 7)"
proof -
  have h: "(7 :: u64) \<noteq> 0" by simp
  have t: "(10 :: u64) \<noteq> 0" by simp
  show ?thesis
    using h grub_divmod64_quotient_remainder [OF h, of True 100]
    by (simp add: grub_divmod64_div_mod [OF h] grub_divmod64_div_mod [OF t])
qed

section \<open>Bytes, C strings and the character helpers\<close>

text \<open>
  A byte is an \<^verbatim>\<open>unsigned char\<close>; a plain \<^verbatim>\<open>char\<close> holding it is read as
  \<^verbatim>\<open>int\<close> by sign extension (\<open>scast\<close>, \<open>sint\<close>). A C string is the list of its
  bytes with the terminating NUL left implicit at the end of the list: \<open>deref p\<close> is
  \<^verbatim>\<open>*p\<close> and \<open>tl p\<close> is \<^verbatim>\<open>p + 1\<close>. A NUL inside the list ends the string as well,
  as it would in memory. The code never reads behind a NUL it has consumed except
  at the head of its scanning loops; those reads are the fault
  \<open>Read_past_terminator\<close> below.
\<close>

type_synonym byte = "8 word"
type_synonym cint = "32 word"

abbreviation B :: "char \<Rightarrow> byte" where
  "B c \<equiv> of_char c"

abbreviation cstr :: "string \<Rightarrow> byte list" where
  "cstr s \<equiv> map of_char s"

definition deref :: "byte list \<Rightarrow> byte" where
  "deref p = (case p of [] \<Rightarrow> 0 | c # _ \<Rightarrow> c)"

definition grub_isspace :: "byte \<Rightarrow> bool" where
  "grub_isspace c =
     (c = B CHR 0x0A \<or> c = B CHR 0x0D \<or> c = B CHR '' '' \<or> c = B CHR 0x09)"

text \<open>
  Modelled from the spec: \<^verbatim>\<open>grub_isdigit\<close> and \<^verbatim>\<open>grub_tolower\<close> are inline functions
  of \<^verbatim>\<open>include/grub/misc.h\<close>, which is not among the sources. A digit run of the
  spec is a run of the decimal digits \<^verbatim>\<open>0\<close> to \<^verbatim>\<open>9\<close>; lowering maps \<^verbatim>\<open>A\<close> to
  \<^verbatim>\<open>Z\<close> onto \<^verbatim>\<open>a\<close> to \<^verbatim>\<open>z\<close> and leaves every other value unchanged.
\<close>

definition grub_isdigit :: "byte \<Rightarrow> bool" where
  "grub_isdigit c = (sint (B CHR ''0'') \<le> sint c \<and> sint c \<le> sint (B CHR ''9''))"

definition grub_tolower :: "cint \<Rightarrow> cint" where
  "grub_tolower c =
     (if sint (scast (B CHR ''A'') :: cint) \<le> sint c \<and> sint c \<le> sint (scast (B CHR ''Z'') :: cint)
      then c - scast (B CHR ''A'') + scast (B CHR ''a'') else c)"

text \<open>
  \<^verbatim>\<open>grub_strchr (s, c)\<close>: the suffix of \<open>s\<close> at the first occurrence of \<open>c\<close>, where
  the terminator itself is found when \<open>c\<close> is 0; \<open>None\<close> is the null pointer.
\<close>

fun grub_strchr :: "byte list \<Rightarrow> cint \<Rightarrow> byte list option" where
  "grub_strchr [] c = (if (0 :: cint) = c then Some [] else None)"
| "grub_strchr (x # xs) c =
     (if (scast x :: cint) = c then Some (x # xs)
      else if x = 0 then None
      else grub_strchr xs c)"

section \<open>Parsing unsigned integers: \<^verbatim>\<open>grub_strtoull\<close>\<close>

text \<open>
  The build constant \<^verbatim>\<open>GRUB_DIVISION_IN_SOFTWARE\<close> of the modelled target (x86 has
  a hardware divider).
\<close>

definition GRUB_DIVISION_IN_SOFTWARE :: bool where
  "GRUB_DIVISION_IN_SOFTWARE = False"

datatype grub_err_t = GRUB_ERR_OUT_OF_RANGE | GRUB_ERR_BAD_NUMBER

text \<open>
  The three ways \<^verbatim>\<open>grub_strtoull\<close> ends. \<open>Parsed num e\<close>: it returns \<open>num\<close> and
  stores \<open>e\<close> through \<^verbatim>\<open>end\<close> (when that is not null). \<open>Failed err v\<close>: it has called
  \<^verbatim>\<open>grub_error (err, ...)\<close> and returns the sentinel \<open>v\<close>, leaving \<^verbatim>\<open>*end\<close>
  untouched. \<open>Trapped\<close>: the division of the overflow test trapped.
\<close>

datatype strto_result = Parsed u64 "byte list" | Failed grub_err_t u64 | Trapped

definition strtoull_end :: "byte list \<Rightarrow> u64 \<Rightarrow> bool \<Rightarrow> strto_result" where
  "strtoull_end str num found =
     (if \<not> found then Failed GRUB_ERR_BAD_NUMBER 0 else Parsed num str)"

text \<open>
  The loop \<^verbatim>\<open>while (*str)\<close>; \<open>base\<close> is the \<^verbatim>\<open>int\<close> of the source, converted to
  \<^verbatim>\<open>unsigned long\<close> by sign extension where it is compared and multiplied.
\<close>

fun strtoull_loop :: "cint \<Rightarrow> byte list \<Rightarrow> u64 \<Rightarrow> bool \<Rightarrow> strto_result" where
  "strtoull_loop base [] num found = strtoull_end [] num found"
| "strtoull_loop base (c # cs) num found =
     (if c = 0 then strtoull_end (c # cs) num found
      else
        let digit0 = (scast (grub_tolower (scast c) - scast (B CHR ''0'')) :: u64) in
        if digit0 > 9 \<and> \<not> digit0 \<ge> scast (B CHR ''a'') - scast (B CHR ''0'')
        then strtoull_end (c # cs) num found
        else
          let digit = (if digit0 \<ge> scast (B CHR ''a'') - scast (B CHR ''0'')
                       then digit0 + (scast (B CHR ''0'') - scast (B CHR ''a'') + 10)
                       else digit0) in
          if digit \<ge> scast base then strtoull_end (c # cs) num found
          else
            (case grub_divmod64 GRUB_DIVISION_IN_SOFTWARE (NOT 0 - digit) (scast base) of
               None \<Rightarrow> Trapped
             | Some (q, r) \<Rightarrow>
                 if num > q then Failed GRUB_ERR_OUT_OF_RANGE (NOT 0)
                 else strtoull_loop base cs (num * scast base + digit) True))"

definition grub_strtoull :: "byte list \<Rightarrow> cint \<Rightarrow> strto_result" where
  "grub_strtoull str0 base0 =
     (let str = dropWhile grub_isspace str0;
          (str, base) =
            (if deref str = B CHR ''0'' then
               (if deref (tl str) = B CHR ''x'' then
                  (if base0 = 0 \<or> base0 = 16 then (tl (tl str), 16) else (str, base0))
                else if base0 = 0 \<and> sint (deref (tl str)) \<ge> sint (B CHR ''0'')
                        \<and> sint (deref (tl str)) \<le> sint (B CHR ''7'')
                then (str, 8) else (str, base0))
             else (str, base0));
          base = (if base = 0 then 10 else base)
      in strtoull_loop base str 0 False)"

text \<open>
  \<^verbatim>\<open>grub_strtoul\<close> on a target whose \<^verbatim>\<open>long\<close> is 64 bits wide
  (\<^verbatim>\<open>GRUB_CPU_SIZEOF_LONG == 8\<close>): the range check is not compiled.
\<close>

definition grub_strtoul :: "byte list \<Rightarrow> cint \<Rightarrow> strto_result" where
  "grub_strtoul str base = grub_strtoull str base"

subsection \<open>Where \<^verbatim>\<open>grub_strtoull\<close> leaves the end pointer\<close>

lemma strtoull_loop_end:
  "strtoull_loop base str num found = Parsed v e \<Longrightarrow> length e \<le> length str"
proof (induction base str num found rule: strtoull_loop.induct)
  case (1 base num found)
  then show ?case by (simp add: strtoull_end_def split: if_splits)
next
  case (2 base c cs num found)
  show ?case
  proof (cases "strtoull_loop base (c # cs) num found = strtoull_end (c # cs) num found")
    case True
    with "2.prems" show ?thesis by (simp add: strtoull_end_def split: if_splits)
  next
    case False
    with "2.prems" "2.IH" have "length e \<le> length cs"
      by (simp add: Let_def split: if_splits option.splits prod.splits)
    then show ?thesis by simp
  qed
qed

lemma length_dropWhile_tl: "length (tl (tl (dropWhile P xs))) \<le> length xs"
proof -
  have "length (tl (tl (dropWhile P xs))) \<le> length (dropWhile P xs)" by simp
  also have "\<dots> \<le> length xs" by (rule length_dropWhile_le)
  finally show ?thesis .
qed

lemma grub_strtoull_end:
  assumes "grub_strtoull str base = Parsed v e"
  shows "length e \<le> length str"
proof -
  obtain b s where run: "strtoull_loop b s 0 False = Parsed v e"
    and len: "length s \<le> length str"
    using assms length_dropWhile_le [of grub_isspace str] length_dropWhile_tl [of grub_isspace str]
    by (auto simp: grub_strtoull_def Let_def split: if_splits)
  from strtoull_loop_end [OF run] len show ?thesis by simp
qed

section \<open>Integer to string: \<^verbatim>\<open>grub_lltoa\<close>\<close>

text \<open>
  What can stop a run of the model before the function returns. The first is
  the read behind a consumed terminator described above; \<open>Division_trap\<close> is a
  trap of \<^verbatim>\<open>grub_divmod64\<close>; \<open>Bad_pointer\<close> is a \<^verbatim>\<open>%s\<close> argument that points at
  no string; \<open>Bad_index\<close> is a read of \<^verbatim>\<open>args->ptr\<close> behind the array;
  \<open>Va_arg_exhausted\<close> is a \<^verbatim>\<open>va_arg\<close> with no argument left.
\<close>

datatype fault =
  Read_past_terminator | Division_trap | Bad_pointer | Bad_index | Va_arg_exhausted

lemma drop_bit_4_less:
  fixes n :: u64
  assumes "drop_bit 4 n \<noteq> 0"
  shows "unat (drop_bit 4 n) < unat n"
proof -
  have e: "unat (drop_bit 4 n) = unat n div 2 ^ 4"
    by (simp add: drop_bit_eq_div unat_div)
  have "0 < unat (drop_bit 4 n)" using assms by (simp add: unat_gt_0)
  then have "0 < unat n div 2 ^ 4" using e by simp
  then have "unat n div 2 ^ 4 < unat n" by (intro div_less_dividend) (auto simp: div_eq_0_iff)
  then show ?thesis using e by simp
qed

text \<open>
  The hexadecimal \<^verbatim>\<open>do ... while (n >>= 4)\<close>: the digits as they are stored, least
  significant first.
\<close>

function lltoa_hex :: "byte \<Rightarrow> u64 \<Rightarrow> byte list" where
  "lltoa_hex c n =
     (let d = (ucast (n AND 0xf) :: u32);
          ch = (if d > 9
                then d + (if c = B CHR ''x'' then ucast (B CHR ''a'') else ucast (B CHR ''A'')) - 10
                else d + ucast (B CHR ''0''));
          n1 = drop_bit 4 n
      in (ucast ch :: byte) # (if n1 \<noteq> 0 then lltoa_hex c n1 else []))"
  by pat_completeness auto
termination
  by (relation "measure (\<lambda>(c, n). unat n)") (auto dest: drop_bit_4_less)

declare lltoa_hex.simps [simp del]

lemma divmod64_10_less:
  assumes "grub_divmod64 sw n 10 = Some (q, m)" and "q \<noteq> 0"
  shows "unat q < unat n"
proof -
  have t: "(10 :: u64) \<noteq> 0" by simp
  have q: "q = n div 10" using assms(1) by (simp add: grub_divmod64_div_mod [OF t])
  have e: "unat q = unat n div 10" by (simp add: q unat_div)
  have "0 < unat q" using assms(2) by (simp add: unat_gt_0)
  then have "0 < unat n div 10" using e by simp
  then have "unat n div 10 < unat n" by (intro div_less_dividend) (auto simp: div_eq_0_iff)
  then show ?thesis using e by simp
qed

text \<open>
  The decimal \<^verbatim>\<open>do ... while (n)\<close>, again least significant digit first; \<open>None\<close>
  is a trap of the division.
\<close>

function lltoa_dec :: "u64 \<Rightarrow> byte list option" where
  "lltoa_dec n =
     (case grub_divmod64 GRUB_DIVISION_IN_SOFTWARE n 10 of
        None \<Rightarrow> None
      | Some (q, m) \<Rightarrow>
          if q \<noteq> 0
          then (case lltoa_dec q of None \<Rightarrow> None
                | Some ds \<Rightarrow> Some ((ucast (m + ucast (B CHR ''0'')) :: byte) # ds))
          else Some [ucast (m + ucast (B CHR ''0''))])"
  by pat_completeness auto
termination
  by (relation "measure unat") (auto dest: divmod64_10_less)

declare lltoa_dec.simps [simp del]

text \<open>
  \<^verbatim>\<open>grub_lltoa (str, c, n)\<close>: the bytes left in \<^verbatim>\<open>str\<close> before the terminator,
  after \<^verbatim>\<open>grub_reverse\<close> has put the digits most significant first. The returned
  pointer is \<^verbatim>\<open>str\<close> plus the length of this list.
\<close>

definition grub_lltoa :: "byte \<Rightarrow> u64 \<Rightarrow> byte list option" where
  "grub_lltoa c n =
     (let neg = (sint n < 0 \<and> c = B CHR ''d'');
          n1 = (if neg then - n else n);
          sign = (if neg then [B CHR ''-''] else [])
      in if c = B CHR ''x'' \<or> c = B CHR ''X''
         then Some (sign @ rev (lltoa_hex c n1))
         else (case lltoa_dec n1 of None \<Rightarrow> None | Some ds \<Rightarrow> Some (sign @ rev ds)))"

section \<open>The bounded writer: \<^verbatim>\<open>write_char\<close>\<close>

text \<open>
  The destination and the logical count of \<^verbatim>\<open>grub_vsnprintf_real\<close>. \<open>str\<close> is
  \<open>None\<close> for a null pointer and otherwise the memory at the pointer, byte \<open>i\<close>
  being \<^verbatim>\<open>str[i]\<close>; it is a function on all indices, so that a store behind any
  capacity would show. \<open>count\<close> is the \<^verbatim>\<open>grub_size_t count\<close>.
\<close>

record wstate =
  str :: "(nat \<Rightarrow> byte) option"
  count :: u64

definition write_char :: "u64 \<Rightarrow> byte \<Rightarrow> wstate \<Rightarrow> wstate" where
  "write_char max_len ch s =
     \<lparr>str = (case str s of
               None \<Rightarrow> None
             | Some b \<Rightarrow> if count s < max_len then Some (b(unat (count s) := ch)) else Some b),
      count = count s + 1\<rparr>"

text \<open>
  The two loops around \<^verbatim>\<open>write_char\<close>: \<^verbatim>\<open>write_char (..., *p++)\<close> over the bytes of a
  string, and \<^verbatim>\<open>while (fill--) write_char (..., zerofill)\<close>, which runs \<^verbatim>\<open>fill\<close>
  times.
\<close>

fun write_string :: "u64 \<Rightarrow> byte list \<Rightarrow> wstate \<Rightarrow> wstate" where
  "write_string max_len [] s = s"
| "write_string max_len (c # cs) s = write_string max_len cs (write_char max_len c s)"

fun write_fill :: "u64 \<Rightarrow> nat \<Rightarrow> byte \<Rightarrow> wstate \<Rightarrow> wstate" where
  "write_fill max_len 0 ch s = s"
| "write_fill max_len (Suc fill) ch s = write_fill max_len fill ch (write_char max_len ch s)"

section \<open>The renderer: \<^verbatim>\<open>grub_vsnprintf_real\<close>\<close>

text \<open>
  \<^verbatim>\<open>struct printf_args\<close> as the renderer reads it: the \<^verbatim>\<open>ll\<close> members of
  \<^verbatim>\<open>args->ptr\<close> and \<^verbatim>\<open>args->count\<close>. \<open>arg_ll\<close> is \<^verbatim>\<open>args->ptr[curn].ll\<close>.
\<close>

record printf_args =
  args_ptr :: "u64 list"
  args_count :: u64

definition arg_ll :: "printf_args \<Rightarrow> u64 \<Rightarrow> u64 option" where
  "arg_ll args curn =
     (if unat curn < length (args_ptr args) then Some (args_ptr args ! unat curn) else None)"

text \<open>
  The formatting parameters of one conversion: \<^verbatim>\<open>format1\<close> (the width),
  \<^verbatim>\<open>format2\<close> (the precision), \<^verbatim>\<open>zerofill\<close> (the fill byte) and \<^verbatim>\<open>rightfill\<close>
  (set by the flag \<^verbatim>\<open>-\<close>), with the values the loop body starts from.
\<close>

record fspec =
  format1 :: u32
  format2 :: u32
  zerofill :: byte
  rightfill :: bool

definition init_fspec :: fspec where
  "init_fspec = \<lparr>format1 = 0, format2 = NOT 0, zerofill = B CHR '' '', rightfill = False\<rparr>"

text \<open>
  \<^verbatim>\<open>x = grub_strtoul (fmt, &fmt, 10)\<close>: the value cut to \<^verbatim>\<open>unsigned int\<close> and the
  new \<^verbatim>\<open>fmt\<close>, which stays where it was when the parse fails.
\<close>

definition strtoul_fmt :: "byte list \<Rightarrow> (u32 \<times> byte list) option" where
  "strtoul_fmt fmt =
     (case grub_strtoul fmt 10 of
        Parsed v e \<Rightarrow> Some (ucast v, e)
      | Failed err v \<Rightarrow> Some (ucast v, fmt)
      | Trapped \<Rightarrow> None)"

text \<open>
  From the label \<^verbatim>\<open>rescan\<close> to the test for \<^verbatim>\<open>$\<close>: the flag, the width, the dot
  and the precision.
\<close>

definition read_params :: "byte list \<Rightarrow> fspec \<Rightarrow> (byte list \<times> fspec) option" where
  "read_params fmt0 sp0 =
     (let (fmt1, sp1) =
            (if deref fmt0 = B CHR ''-'' then (tl fmt0, sp0\<lparr>rightfill := True\<rparr>)
             else (fmt0, sp0))
      in case (if grub_isdigit (deref fmt1)
               then (let sp2 = (if deref fmt1 = B CHR ''0''
                                then sp1\<lparr>zerofill := B CHR ''0''\<rparr> else sp1)
                     in map_option (\<lambda>(v, e). (e, sp2\<lparr>format1 := v\<rparr>)) (strtoul_fmt fmt1))
               else Some (fmt1, sp1)) of
           None \<Rightarrow> None
         | Some (fmt2, sp3) \<Rightarrow>
             let fmt3 = (if deref fmt2 = B CHR ''.'' then tl fmt2 else fmt2)
             in if grub_isdigit (deref fmt3)
                then map_option (\<lambda>(v, e). (e, sp3\<lparr>format2 := v\<rparr>)) (strtoul_fmt fmt3)
                else Some (fmt3, sp3))"

lemma strtoul_fmt_length:
  "strtoul_fmt fmt = Some (v, e) \<Longrightarrow> length e \<le> length fmt"
  by (auto simp: strtoul_fmt_def grub_strtoul_def split: strto_result.splits
      dest: grub_strtoull_end)

lemma read_params_length:
  assumes "read_params fmt sp = Some (fmt', sp')"
  shows "length fmt' \<le> length fmt"
proof -
  obtain fmt1 sp1 where a: "(if deref fmt = B CHR ''-'' then (tl fmt, sp\<lparr>rightfill := True\<rparr>)
             else (fmt, sp)) = (fmt1, sp1)"
    by fastforce
  then have l1: "length fmt1 \<le> length fmt" by (auto split: if_splits)
  obtain fmt2 sp3 where b: "(if grub_isdigit (deref fmt1)
               then (let sp2 = (if deref fmt1 = B CHR ''0''
                                then sp1\<lparr>zerofill := B CHR ''0''\<rparr> else sp1)
                     in map_option (\<lambda>(v, e). (e, sp2\<lparr>format1 := v\<rparr>)) (strtoul_fmt fmt1))
               else Some (fmt1, sp1)) = Some (fmt2, sp3)"
    and c: "(let fmt3 = (if deref fmt2 = B CHR ''.'' then tl fmt2 else fmt2)
             in if grub_isdigit (deref fmt3)
                then map_option (\<lambda>(v, e). (e, sp3\<lparr>format2 := v\<rparr>)) (strtoul_fmt fmt3)
                else Some (fmt3, sp3)) = Some (fmt', sp')"
    using assms a by (auto simp: read_params_def split: option.splits)
  have l2: "length fmt2 \<le> length fmt1"
    using b by (auto simp: Let_def split: if_splits dest: strtoul_fmt_length)
  have "length (if deref fmt2 = B CHR ''.'' then tl fmt2 else fmt2) \<le> length fmt2"
    by simp
  then have l3: "length fmt' \<le> length fmt2"
    using c by (auto simp: Let_def split: if_splits dest!: strtoul_fmt_length)
  from l1 l2 l3 show ?thesis by simp
qed

text \<open>
  The loop made by \<^verbatim>\<open>goto rescan\<close>: a \<^verbatim>\<open>$\<close> turns the width just read into the
  argument index \<^verbatim>\<open>curn\<close>, resets the parameters and reads them again.
\<close>

function rescan :: "byte list \<Rightarrow> u64 \<Rightarrow> fspec \<Rightarrow> fault + (byte list \<times> u64 \<times> fspec)" where
  "rescan fmt curn sp =
     (case read_params fmt sp of
        None \<Rightarrow> Inl Division_trap
      | Some (fmt1, sp1) \<Rightarrow>
          if deref fmt1 = B CHR ''$''
          then rescan (tl fmt1) (ucast (format1 sp1 - 1)) init_fspec
          else Inr (fmt1, curn, sp1))"
  by pat_completeness auto
termination
proof (relation "measure (\<lambda>(fmt, curn, sp). length fmt)")
  show "wf (measure (\<lambda>(fmt, curn, sp). length fmt))" by simp
next
  fix fmt :: "byte list" and curn :: u64 and sp x2 fmt1 sp1
  assume "read_params fmt sp = Some x2" and "(fmt1, sp1) = x2"
    and d: "deref fmt1 = B CHR ''$''"
  then have "length fmt1 \<le> length fmt" by (auto dest: read_params_length)
  moreover have "fmt1 \<noteq> []" using d by (auto simp: deref_def)
  ultimately show "((tl fmt1, ucast (format1 sp1 - 1), init_fspec), fmt, curn, sp)
      \<in> measure (\<lambda>(fmt, curn, sp). length fmt)"
    by (cases fmt1) auto
qed

declare rescan.simps [simp del]

lemma rescan_length:
  "rescan fmt curn sp = Inr (fmt', curn', sp') \<Longrightarrow> length fmt' \<le> length fmt"
proof (induction fmt curn sp rule: rescan.induct)
  case (1 fmt curn sp)
  show ?case
  proof (cases "read_params fmt sp")
    case None
    with "1.prems" show ?thesis by (simp add: rescan.simps [of fmt])
  next
    case (Some a)
    obtain fmt1 sp1 where a: "a = (fmt1, sp1)" by (cases a)
    have l: "length fmt1 \<le> length fmt" using Some a by (auto dest: read_params_length)
    show ?thesis
    proof (cases "deref fmt1 = B CHR ''$''")
      case True
      then have "rescan (tl fmt1) (ucast (format1 sp1 - 1)) init_fspec = Inr (fmt', curn', sp')"
        using "1.prems" Some a by (simp add: rescan.simps [of fmt])
      from "1.IH" [OF Some a [symmetric] True this]
      have "length fmt' \<le> length (tl fmt1)" .
      then show ?thesis using l by simp
    next
      case False
      then show ?thesis using "1.prems" Some a l by (simp add: rescan.simps [of fmt])
    qed
  qed
qed

text \<open>
  \<^verbatim>\<open>c = *fmt++\<close> with the length modifiers \<^verbatim>\<open>l\<close>, \<^verbatim>\<open>ll\<close>, \<^verbatim>\<open>h\<close>, \<^verbatim>\<open>hh\<close> and
  \<^verbatim>\<open>z\<close>: the conversion byte, \<^verbatim>\<open>longfmt\<close> (which only \<^verbatim>\<open>parse_printf_args\<close>
  keeps; \<^verbatim>\<open>sizeof (grub_size_t)\<close> is 8) and the new \<^verbatim>\<open>fmt\<close>.
\<close>

definition read_conv :: "byte list \<Rightarrow> byte \<times> int \<times> byte list" where
  "read_conv fmt0 =
     (let c0 = deref fmt0; fmt1 = tl fmt0;
          (c2, longfmt2, fmt2) =
            (if c0 = B CHR ''l'' \<or> c0 = B CHR ''h'' then
               (let longfmt1 = (if c0 = B CHR ''h'' then - 1 else 1);
                    c1 = deref fmt1
                in if c1 = c0 then (deref (tl fmt1), longfmt1 * 2, tl (tl fmt1))
                   else (c1, longfmt1, tl fmt1))
             else (c0, 0, fmt1))
      in if c2 = B CHR ''z'' \<and> grub_strchr (cstr ''duxX'') (scast (deref fmt2)) \<noteq> None
         then (deref fmt2, 2, tl fmt2)
         else (c2, longfmt2, fmt2))"

lemma read_conv_length:
  "read_conv fmt = (c, longfmt, fmt') \<Longrightarrow> length fmt' \<le> length fmt"
  by (auto simp: read_conv_def Let_def split: if_splits)

subsection \<open>The conversions\<close>

text \<open>
  The block of the cases \<^verbatim>\<open>x\<close>, \<^verbatim>\<open>X\<close>, \<^verbatim>\<open>u\<close> and \<^verbatim>\<open>d\<close>.
\<close>

definition conv_integer ::
  "u64 \<Rightarrow> byte \<Rightarrow> fspec \<Rightarrow> u64 \<Rightarrow> wstate \<Rightarrow> fault option \<times> wstate" where
  "conv_integer max_len c sp curarg s0 =
     (case grub_lltoa c curarg of
        None \<Rightarrow> (Some Division_trap, s0)
      | Some tmp \<Rightarrow>
          let len = (of_nat (length tmp) :: u64);
              fill = (if len < ucast (format1 sp) then ucast (format1 sp) - len else 0);
              s1 = (if \<not> rightfill sp then write_fill max_len (unat fill) (zerofill sp) s0
                    else s0);
              s2 = write_string max_len (takeWhile (\<lambda>c. c \<noteq> 0) tmp) s1;
              s3 = (if rightfill sp then write_fill max_len (unat fill) (zerofill sp) s2
                    else s2)
          in (None, s3))"

text \<open>
  The case \<^verbatim>\<open>C\<close>: the loop \<^verbatim>\<open>for (shift -= 6; shift >= 0; shift -= 6)\<close> of the
  continuation bytes, and the block before it.
\<close>

function utf8_tail :: "u64 \<Rightarrow> u32 \<Rightarrow> int \<Rightarrow> wstate \<Rightarrow> wstate" where
  "utf8_tail max_len code shift s =
     (if shift \<ge> 0
      then utf8_tail max_len code (shift - 6)
             (write_char max_len (ucast (0x80 OR (0x3f AND drop_bit (nat shift) code))) s)
      else s)"
  by pat_completeness auto
termination
  by (relation "measure (\<lambda>(max_len, code, shift, s). nat (shift + 6))") auto

declare utf8_tail.simps [simp del]

definition conv_C :: "u64 \<Rightarrow> u64 \<Rightarrow> wstate \<Rightarrow> wstate" where
  "conv_C max_len curarg s =
     (let code0 = (ucast curarg :: u32);
          (code, shift, mask) =
            (if code0 \<le> 0x7f then (code0, 0, 0)
             else if code0 \<le> 0x7ff then (code0, 6, 0xc0)
             else if code0 \<le> 0xffff then (code0, 12, 0xe0)
             else if code0 \<le> 0x10ffff then (code0, 18, 0xf0)
             else (ucast (B CHR ''?''), 0, 0))
      in utf8_tail max_len code (shift - 6)
           (write_char max_len (ucast (mask OR drop_bit (nat shift) code)) s))"

text \<open>
  The case \<^verbatim>\<open>s\<close>. \<open>mem\<close> gives the C string at an address, \<open>None\<close> where there is
  none; the strings are taken not to overlap the destination.
\<close>

definition conv_s ::
  "u64 \<Rightarrow> (u64 \<Rightarrow> byte list option) \<Rightarrow> fspec \<Rightarrow> u64 \<Rightarrow> wstate \<Rightarrow> fault option \<times> wstate" where
  "conv_s max_len mem sp curarg s0 =
     (case (if curarg = 0 then Some (cstr ''(null)'') else mem curarg) of
        None \<Rightarrow> (Some Bad_pointer, s0)
      | Some p \<Rightarrow>
          let len = (of_nat (length (takeWhile (\<lambda>c. c \<noteq> 0) (take (unat (format2 sp)) p))) :: u64);
              fill = (if len < ucast (format1 sp) then ucast (format1 sp) - len else 0);
              s1 = (if \<not> rightfill sp then write_fill max_len (unat fill) (zerofill sp) s0
                    else s0);
              s2 = write_string max_len (take (unat len) p) s1;
              s3 = (if rightfill sp then write_fill max_len (unat fill) (zerofill sp) s2
                    else s2)
          in (None, s3))"

text \<open>
  The \<^verbatim>\<open>switch (c)\<close>, entered once \<^verbatim>\<open>curarg\<close> is read.
\<close>

definition convert ::
  "u64 \<Rightarrow> (u64 \<Rightarrow> byte list option) \<Rightarrow> byte \<Rightarrow> fspec \<Rightarrow> u64 \<Rightarrow> wstate \<Rightarrow> fault option \<times> wstate" where
  "convert max_len mem c sp curarg s =
     (if c = B CHR ''p'' then
        conv_integer max_len (B CHR ''x'') sp curarg
          (write_char max_len (B CHR ''x'') (write_char max_len (B CHR ''0'') s))
      else if c = B CHR ''x'' \<or> c = B CHR ''X'' \<or> c = B CHR ''u'' \<or> c = B CHR ''d'' then
        conv_integer max_len c sp curarg s
      else if c = B CHR ''c'' then
        (None, write_char max_len (ucast (curarg AND 0xff)) s)
      else if c = B CHR ''C'' then
        (None, conv_C max_len curarg s)
      else if c = B CHR ''s'' then
        conv_s max_len mem sp curarg s
      else (None, write_char max_len c s))"

subsection \<open>The main loop\<close>

text \<open>
  \<^verbatim>\<open>while ((c = *fmt++) != 0)\<close> with the variables \<^verbatim>\<open>fmt\<close>, \<^verbatim>\<open>n\<close> and the writer's
  state. When the conversion byte \<open>c1\<close> is the terminator, \<^verbatim>\<open>fmt\<close> stands behind
  the string, and the next read at the head of the loop is the fault
  \<open>Read_past_terminator\<close>.
\<close>

function vsnprintf_loop ::
  "u64 \<Rightarrow> (u64 \<Rightarrow> byte list option) \<Rightarrow> printf_args \<Rightarrow> byte list \<Rightarrow> u64 \<Rightarrow> wstate
     \<Rightarrow> fault option \<times> wstate" where
  "vsnprintf_loop max_len mem args fmt0 n s =
     (case fmt0 of
        [] \<Rightarrow> (None, s)
      | c # fmt \<Rightarrow>
          if c = 0 then (None, s)
          else if c \<noteq> B CHR ''%'' then
            vsnprintf_loop max_len mem args fmt n (write_char max_len c s)
          else
            (case rescan fmt n init_fspec of
               Inl e \<Rightarrow> (Some e, s)
             | Inr (fmt1, curn, sp) \<Rightarrow>
                 (case read_conv fmt1 of
                    (c1, longfmt, fmt2) \<Rightarrow>
                      if c1 = B CHR ''%'' then
                        vsnprintf_loop max_len mem args fmt2 (n + 1 - 1)
                          (write_char max_len c1 s)
                      else if curn \<ge> args_count args then
                        (if c1 = 0 then (Some Read_past_terminator, s)
                         else vsnprintf_loop max_len mem args fmt2 (n + 1) s)
                      else
                        (case arg_ll args curn of
                           None \<Rightarrow> (Some Bad_index, s)
                         | Some curarg \<Rightarrow>
                             (case convert max_len mem c1 sp curarg s of
                                (Some e, s1) \<Rightarrow> (Some e, s1)
                              | (None, s1) \<Rightarrow>
                                  if c1 = 0 then (Some Read_past_terminator, s1)
                                  else vsnprintf_loop max_len mem args fmt2 (n + 1) s1)))))"
  by pat_completeness auto

termination
proof (relation "measure (\<lambda>(max_len, mem, args, fmt, n, s). length fmt)")
qed (auto dest!: rescan_length read_conv_length [OF sym])

declare vsnprintf_loop.simps [simp del]

text \<open>
  \<^verbatim>\<open>grub_vsnprintf_real (str, max_len, fmt0, args)\<close>: the returned \<^verbatim>\<open>int\<close>, which is
  \<^verbatim>\<open>count\<close> cut to 32 bits, or the fault that stopped the run, and the memory at
  \<^verbatim>\<open>str\<close> afterwards.
\<close>

definition grub_vsnprintf_real ::
  "(u64 \<Rightarrow> byte list option) \<Rightarrow> (nat \<Rightarrow> byte) option \<Rightarrow> u64 \<Rightarrow> byte list \<Rightarrow> printf_args
     \<Rightarrow> (fault + cint) \<times> (nat \<Rightarrow> byte) option" where
  "grub_vsnprintf_real mem str0 max_len fmt0 args =
     (case vsnprintf_loop max_len mem args fmt0 0 \<lparr>str = str0, count = 0\<rparr> of
        (Some e, s) \<Rightarrow> (Inl e, str s)
      | (None, s) \<Rightarrow>
          (Inr (ucast (count s)),
           (case str s of
              None \<Rightarrow> None
            | Some b \<Rightarrow>
                if count s < max_len then Some (b(unat (count s) := 0))
                else if max_len > 0 then Some (b(unat (max_len - 1) := 0))
                else Some b)))"

section \<open>The argument scanner: \<^verbatim>\<open>parse_printf_args\<close>\<close>

text \<open>
  The tags of \<^verbatim>\<open>union printf_arg\<close>, with their values as enumerators, and the sums
  \<^verbatim>\<open>INT + longfmt\<close> and \<^verbatim>\<open>UNSIGNED_INT + longfmt\<close> that the scanner forms from
  them (\<^verbatim>\<open>longfmt\<close> is between -2 and 2). The tag \<^verbatim>\<open>INT\<close> is written \<open>INT'\<close>.
\<close>

datatype arg_type =
  INT8 | INT16 | INT' | LONG | LONGLONG |
  UINT8 | UINT16 | UNSIGNED_INT | UNSIGNED_LONG | UNSIGNED_LONGLONG

fun type_code :: "arg_type \<Rightarrow> int" where
  "type_code INT8 = 0"
| "type_code INT16 = 1"
| "type_code INT' = 2"
| "type_code LONG = 3"
| "type_code LONGLONG = 4"
| "type_code UINT8 = 5"
| "type_code UINT16 = 6"
| "type_code UNSIGNED_INT = 7"
| "type_code UNSIGNED_LONG = 8"
| "type_code UNSIGNED_LONGLONG = 9"

definition type_of_code :: "int \<Rightarrow> arg_type" where
  "type_of_code k =
     (if k = 0 then INT8 else if k = 1 then INT16 else if k = 2 then INT'
      else if k = 3 then LONG else if k = 4 then LONGLONG else if k = 5 then UINT8
      else if k = 6 then UINT16 else if k = 7 then UNSIGNED_INT
      else if k = 8 then UNSIGNED_LONG else UNSIGNED_LONGLONG)"

definition type_plus :: "arg_type \<Rightarrow> int \<Rightarrow> arg_type" where
  "type_plus t longfmt = type_of_code (type_code t + longfmt)"

text \<open>
  The conversion letters that take an argument: the case labels of the first
  \<^verbatim>\<open>switch\<close>.
\<close>

definition is_conversion :: "byte \<Rightarrow> bool" where
  "is_conversion c =
     (c = B CHR ''p'' \<or> c = B CHR ''x'' \<or> c = B CHR ''X'' \<or> c = B CHR ''u'' \<or>
      c = B CHR ''d'' \<or> c = B CHR ''c'' \<or> c = B CHR ''C'' \<or> c = B CHR ''s'')"

text \<open>
  \<^verbatim>\<open>if (*fmt == ch) fmt++\<close>, and the flags, widths and precision as the first pass
  steps over them.
\<close>

definition skip_char :: "byte \<Rightarrow> byte list \<Rightarrow> byte list" where
  "skip_char ch fmt = (if deref fmt = ch then tl fmt else fmt)"

definition skip_params :: "byte list \<Rightarrow> byte list" where
  "skip_params fmt =
     dropWhile grub_isdigit (skip_char (B CHR ''.'')
       (dropWhile grub_isdigit (skip_char (B CHR ''-'')
         (skip_char (B CHR ''$'')
           (dropWhile grub_isdigit (skip_char (B CHR ''-'') fmt))))))"

lemma skip_char_length: "length (skip_char ch fmt) \<le> length fmt"
  by (simp add: skip_char_def)

lemma skip_params_length: "length (skip_params fmt) \<le> length fmt"
proof -
  note a = order_trans [OF length_dropWhile_le] order_trans [OF skip_char_length]
  show ?thesis unfolding skip_params_def by (intro a order_refl)
qed

lemma read_conv_skip_params:
  assumes "read_conv (skip_params fmt) = (c1, longfmt, fmt2)"
  shows "length fmt2 < Suc (length fmt)"
proof -
  have "length fmt2 \<le> length (skip_params fmt)" using assms by (rule read_conv_length)
  also have "\<dots> \<le> length fmt" by (rule skip_params_length)
  finally show ?thesis by simp
qed

text \<open>
  The first pass: the number of conversions, \<^verbatim>\<open>args->count\<close>.
\<close>

function count_loop :: "byte list \<Rightarrow> u64 \<Rightarrow> fault + u64" where
  "count_loop fmt0 cnt =
     (case fmt0 of
        [] \<Rightarrow> Inr cnt
      | c # fmt \<Rightarrow>
          if c = 0 then Inr cnt
          else if c \<noteq> B CHR ''%'' then count_loop fmt cnt
          else
            (case read_conv (skip_params fmt) of
               (c1, longfmt, fmt2) \<Rightarrow>
                 if c1 = 0
                 then Inl Read_past_terminator
                 else count_loop fmt2 (if is_conversion c1 then cnt + 1 else cnt)))"
  by pat_completeness auto
termination
  by (relation "measure (\<lambda>(fmt, cnt). length fmt)")
    (auto dest!: read_conv_skip_params [OF sym])

declare count_loop.simps [simp del]

text \<open>
  The second pass: the tag of every slot. \<open>types\<close> is \<^verbatim>\<open>args->ptr\<close> while it holds
  tags, \<open>cnt\<close> is \<^verbatim>\<open>args->count\<close> and \<open>n\<close> the running index. The positional prefix
  \<^verbatim>\<open>N$\<close> is read by \<^verbatim>\<open>grub_strtoull (p, 0, 10)\<close>, whose value is used whether or not
  it signals an error. \<^verbatim>\<open>sizeof (void *)\<close> is 8.
\<close>

definition positional :: "byte list \<Rightarrow> u64 \<Rightarrow> (byte list \<times> u64) option" where
  "positional fmt curn =
     (let p = skip_char (B CHR ''-'') fmt;
          fmt1 = dropWhile grub_isdigit p
      in if deref fmt1 = B CHR ''$''
         then (case grub_strtoull p 10 of
                 Parsed v e \<Rightarrow> Some (tl fmt1, v - 1)
               | Failed err v \<Rightarrow> Some (tl fmt1, v - 1)
               | Trapped \<Rightarrow> None)
         else Some (fmt1, curn))"

definition skip_rest :: "byte list \<Rightarrow> byte list" where
  "skip_rest fmt =
     dropWhile grub_isdigit (skip_char (B CHR ''.'')
       (dropWhile grub_isdigit (skip_char (B CHR ''-'') fmt)))"

definition conversion_type :: "byte \<Rightarrow> int \<Rightarrow> arg_type option" where
  "conversion_type c longfmt =
     (if c = B CHR ''x'' \<or> c = B CHR ''X'' \<or> c = B CHR ''u''
      then Some (type_plus UNSIGNED_INT longfmt)
      else if c = B CHR ''d'' then Some (type_plus INT' longfmt)
      else if c = B CHR ''p'' \<or> c = B CHR ''s'' then Some UNSIGNED_LONGLONG
      else if c = B CHR ''C'' \<or> c = B CHR ''c'' then Some INT'
      else None)"

lemma positional_length:
  "positional fmt curn = Some (fmt', curn') \<Longrightarrow> length fmt' \<le> length fmt"
proof -
  assume a: "positional fmt curn = Some (fmt', curn')"
  have "length (dropWhile grub_isdigit (skip_char (B CHR ''-'') fmt)) \<le> length fmt"
    by (intro order_trans [OF length_dropWhile_le] skip_char_length)
  moreover have "length (tl (dropWhile grub_isdigit (skip_char (B CHR ''-'') fmt))) \<le> length fmt"
    using calculation by simp
  ultimately show ?thesis
    using a by (auto simp: positional_def Let_def split: if_splits strto_result.splits)
qed

lemma skip_rest_length: "length (skip_rest fmt) \<le> length fmt"
proof -
  note a = order_trans [OF length_dropWhile_le] order_trans [OF skip_char_length]
  show ?thesis unfolding skip_rest_def by (intro a order_refl)
qed

lemma read_conv_skip_rest:
  assumes "read_conv (skip_rest fmt) = (c1, longfmt, fmt2)"
  shows "length fmt2 \<le> length fmt"
proof -
  have "length fmt2 \<le> length (skip_rest fmt)" using assms by (rule read_conv_length)
  also have "\<dots> \<le> length fmt" by (rule skip_rest_length)
  finally show ?thesis .
qed

lemma tl_skip_rest: "length fmt \<le> k \<Longrightarrow> length (skip_rest fmt) - Suc 0 < Suc k"
  using skip_rest_length [of fmt] by simp

function type_loop ::
  "u64 \<Rightarrow> byte list \<Rightarrow> u64 \<Rightarrow> arg_type list \<Rightarrow> fault + arg_type list" where
  "type_loop cnt fmt0 n types =
     (case fmt0 of
        [] \<Rightarrow> Inr types
      | c # fmt \<Rightarrow>
          if c = 0 then Inr types
          else if c \<noteq> B CHR ''%'' then type_loop cnt fmt n types
          else
            (case positional fmt n of
               None \<Rightarrow> Inl Division_trap
             | Some (fmt1, curn) \<Rightarrow>
                 let fmt2 = skip_rest fmt1 in
                 if deref fmt2 = B CHR ''%'' then type_loop cnt (tl fmt2) (n + 1 - 1) types
                 else
                   (case read_conv fmt2 of
                      (c1, longfmt, fmt3) \<Rightarrow>
                        if c1 = 0 then Inl Read_past_terminator
                        else if curn \<ge> cnt then type_loop cnt fmt3 (n + 1) types
                        else
                          (case conversion_type c1 longfmt of
                             None \<Rightarrow> type_loop cnt fmt3 (n + 1) types
                           | Some t \<Rightarrow>
                               if unat curn < length types
                               then type_loop cnt fmt3 (n + 1) (types[unat curn := t])
                               else Inl Bad_index))))"
  by pat_completeness auto
termination
  by (relation "measure (\<lambda>(cnt, fmt, n, types). length fmt)")
    (auto dest!: positional_length read_conv_skip_rest [OF sym] simp: tl_skip_rest)

declare type_loop.simps [simp del]

text \<open>
  The third loop takes the values from the \<^verbatim>\<open>va_list\<close>, which is modelled as the
  list of the caller's argument slots, one 64-bit slot for each integer or pointer
  argument. \<^verbatim>\<open>va_arg\<close> with an \<^verbatim>\<open>int\<close> type reads the low 32 bits of the slot; the
  value stored in \<^verbatim>\<open>ll\<close> is that value converted as the case of the \<^verbatim>\<open>switch\<close>
  converts it.
\<close>

fun va_value :: "arg_type \<Rightarrow> u64 \<Rightarrow> u64" where
  "va_value INT8 v = scast (ucast (ucast v :: cint) :: 8 word)"
| "va_value INT16 v = scast (ucast (ucast v :: cint) :: 16 word)"
| "va_value INT' v = scast (ucast v :: cint)"
| "va_value LONG v = v"
| "va_value UINT8 v = ucast (ucast (ucast v :: cint) :: 8 word)"
| "va_value UINT16 v = ucast (ucast (ucast v :: cint) :: 16 word)"
| "va_value UNSIGNED_INT v = ucast (ucast v :: cint)"
| "va_value UNSIGNED_LONG v = v"
| "va_value LONGLONG v = v"
| "va_value UNSIGNED_LONGLONG v = v"

fun va_loop :: "arg_type list \<Rightarrow> u64 list \<Rightarrow> fault + u64 list" where
  "va_loop [] args_in = Inr []"
| "va_loop (t # ts) [] = Inl Va_arg_exhausted"
| "va_loop (t # ts) (v # args_in) =
     (case va_loop ts args_in of
        Inl e \<Rightarrow> Inl e
      | Inr lls \<Rightarrow> Inr (va_value t v # lls))"

text \<open>
  \<^verbatim>\<open>parse_printf_args (fmt0, args, args_in)\<close>. \<open>calloc_ok\<close> says whether
  \<^verbatim>\<open>grub_calloc\<close> succeeds when more than the 32 preallocated slots are needed; when
  it fails the count is cut to 32. \<^verbatim>\<open>grub_memset\<close> clears the slots, which makes
  every tag \<^verbatim>\<open>INT8\<close>, the enumerator 0.
\<close>

definition parse_printf_args :: "bool \<Rightarrow> byte list \<Rightarrow> u64 list \<Rightarrow> fault + printf_args" where
  "parse_printf_args calloc_ok fmt0 args_in =
     (case count_loop fmt0 0 of
        Inl e \<Rightarrow> Inl e
      | Inr cnt0 \<Rightarrow>
          let cnt = (if cnt0 \<le> 32 then cnt0 else if calloc_ok then cnt0 else 32) in
          (case type_loop cnt fmt0 0 (replicate (unat cnt) INT8) of
             Inl e \<Rightarrow> Inl e
           | Inr types \<Rightarrow>
               (case va_loop types args_in of
                  Inl e \<Rightarrow> Inl e
                | Inr lls \<Rightarrow> Inr \<lparr>args_ptr = lls, args_count = cnt\<rparr>)))"

section \<open>The entry point \<^verbatim>\<open>grub_vsnprintf\<close>\<close>

text \<open>
  \<^verbatim>\<open>grub_vsnprintf (str, n, fmt, ap)\<close>. The \<^verbatim>\<open>int\<close> that \<^verbatim>\<open>grub_vsnprintf_real\<close>
  returns is stored in the \<^verbatim>\<open>grub_size_t ret\<close> (a sign extension), and the result is
  cut to \<^verbatim>\<open>int\<close> again.
\<close>

definition grub_vsnprintf ::
  "(u64 \<Rightarrow> byte list option) \<Rightarrow> bool \<Rightarrow> (nat \<Rightarrow> byte) option \<Rightarrow> u64 \<Rightarrow> byte list \<Rightarrow> u64 list
     \<Rightarrow> (fault + cint) \<times> (nat \<Rightarrow> byte) option" where
  "grub_vsnprintf mem calloc_ok str0 n fmt ap =
     (case parse_printf_args calloc_ok fmt ap of
        Inl e \<Rightarrow> (Inl e, str0)
      | Inr args \<Rightarrow>
          (case grub_vsnprintf_real mem str0 n fmt args of
             (Inl e, m) \<Rightarrow> (Inl e, m)
           | (Inr r, m) \<Rightarrow>
               let ret = (scast r :: u64) in
               (Inr (if str0 = None then ucast ret
                     else if ret < n then ucast ret else ucast n), m)))"

subsection \<open>Example inputs\<close>

text \<open>
  A memory that holds no strings, and a destination filled with \<^verbatim>\<open>#\<close>.
\<close>

definition no_strings :: "u64 \<Rightarrow> byte list option" where
  "no_strings = (\<lambda>a. None)"

definition blank :: "nat \<Rightarrow> byte" where
  "blank = (\<lambda>i. B CHR ''#'')"

section \<open>Properties of the renderer\<close>

subsection \<open>Two runs of the writer side by side\<close>

text \<open>
  The control flow of the renderer does not depend on the writer's state. So a
  relation between the states of two runs (with their own capacities) that every
  pair of \<^verbatim>\<open>write_char\<close> calls with the same byte preserves is preserved by every
  part of the renderer, and the two runs stop in the same way.
\<close>

definition wsim :: "u64 \<Rightarrow> u64 \<Rightarrow> (wstate \<Rightarrow> wstate \<Rightarrow> bool) \<Rightarrow> bool" where
  "wsim m1 m2 R = (\<forall>ch s t. R s t \<longrightarrow> R (write_char m1 ch s) (write_char m2 ch t))"

lemma wsimD: "wsim m1 m2 R \<Longrightarrow> R s t \<Longrightarrow> R (write_char m1 ch s) (write_char m2 ch t)"
  by (simp add: wsim_def)

lemma write_string_sim:
  "wsim m1 m2 R \<Longrightarrow> R s t \<Longrightarrow> R (write_string m1 cs s) (write_string m2 cs t)"
  by (induction cs arbitrary: s t) (simp_all add: wsimD)

lemma write_fill_sim:
  "wsim m1 m2 R \<Longrightarrow> R s t \<Longrightarrow> R (write_fill m1 k ch s) (write_fill m2 k ch t)"
  by (induction k arbitrary: s t) (simp_all add: wsimD)

lemma utf8_tail_sim:
  "wsim m1 m2 R \<Longrightarrow> R s t \<Longrightarrow> R (utf8_tail m1 code shift s) (utf8_tail m2 code shift t)"
proof (induction m1 code shift s arbitrary: t rule: utf8_tail.induct)
  case (1 m1 code shift s)
  show ?case
  proof (cases "shift \<ge> 0")
    case True
    let ?ch = "ucast (0x80 OR (0x3f AND drop_bit (nat shift) code)) :: byte"
    have "R (write_char m1 ?ch s) (write_char m2 ?ch t)"
      using "1.prems" by (auto dest: wsimD)
    from "1.IH" [OF True "1.prems"(1) this] True
    show ?thesis by (simp add: utf8_tail.simps [of _ code shift])
  next
    case False
    then show ?thesis using "1.prems" by (simp add: utf8_tail.simps [of _ code shift])
  qed
qed

lemma conv_C_sim:
  assumes "wsim m1 m2 R" and "R s t"
  shows "R (conv_C m1 curarg s) (conv_C m2 curarg t)"
proof -
  have "R (write_char m1 ch s) (write_char m2 ch t)" for ch
    using assms by (rule wsimD)
  then show ?thesis
    by (auto simp: conv_C_def Let_def intro!: utf8_tail_sim [OF assms(1)])
qed

lemma conv_integer_sim:
  assumes "wsim m1 m2 R" and "R s t"
  shows "fst (conv_integer m1 c sp curarg s) = fst (conv_integer m2 c sp curarg t) \<and>
         R (snd (conv_integer m1 c sp curarg s)) (snd (conv_integer m2 c sp curarg t))"
  using assms(2)
  by (auto simp: conv_integer_def Let_def split: option.splits
      intro!: write_fill_sim [OF assms(1)] write_string_sim [OF assms(1)])

lemma conv_s_sim:
  assumes "wsim m1 m2 R" and "R s t"
  shows "fst (conv_s m1 mem sp curarg s) = fst (conv_s m2 mem sp curarg t) \<and>
         R (snd (conv_s m1 mem sp curarg s)) (snd (conv_s m2 mem sp curarg t))"
  using assms(2)
  by (auto simp: conv_s_def Let_def split: option.splits
      intro!: write_fill_sim [OF assms(1)] write_string_sim [OF assms(1)])

lemma convert_sim:
  assumes "wsim m1 m2 R" and "R s t"
  shows "fst (convert m1 mem c sp curarg s) = fst (convert m2 mem c sp curarg t) \<and>
         R (snd (convert m1 mem c sp curarg s)) (snd (convert m2 mem c sp curarg t))"
proof -
  have x: "R (write_char m1 (B CHR ''x'') (write_char m1 (B CHR ''0'') s))
             (write_char m2 (B CHR ''x'') (write_char m2 (B CHR ''0'') t))"
    using assms by (auto dest: wsimD)
  have y: "R (write_char m1 ch s) (write_char m2 ch t)" for ch
    using assms by (rule wsimD)
  show ?thesis
    unfolding convert_def
    using conv_integer_sim [OF assms(1) x] conv_integer_sim [OF assms]
      conv_s_sim [OF assms] conv_C_sim [OF assms] y
    by (simp only: fst_conv snd_conv split: if_split) simp
qed

subsection \<open>One round of the main loop\<close>

lemma vsnprintf_loop_end:
  "vsnprintf_loop max_len mem args [] n s = (None, s)"
  "vsnprintf_loop max_len mem args (0 # fmt) n s = (None, s)"
  by (simp_all add: vsnprintf_loop.simps [of _ _ _ "[]"] vsnprintf_loop.simps [of _ _ _ "_ # _"])

lemma vsnprintf_loop_literal:
  "c \<noteq> 0 \<Longrightarrow> c \<noteq> B CHR ''%'' \<Longrightarrow>
   vsnprintf_loop max_len mem args (c # fmt) n s =
     vsnprintf_loop max_len mem args fmt n (write_char max_len c s)"
  by (simp add: vsnprintf_loop.simps [of _ _ _ "_ # _"])

lemma vsnprintf_loop_fault:
  "c = B CHR ''%'' \<Longrightarrow> rescan fmt n init_fspec = Inl e \<Longrightarrow>
   vsnprintf_loop max_len mem args (c # fmt) n s = (Some e, s)"
  by (simp add: vsnprintf_loop.simps [of _ _ _ "_ # _"])

lemma vsnprintf_loop_directive:
  assumes "c = B CHR ''%''" and "rescan fmt n init_fspec = Inr (fmt1, curn, sp)"
    and "read_conv fmt1 = (c1, longfmt, fmt2)"
  shows "vsnprintf_loop max_len mem args (c # fmt) n s =
     (if c1 = B CHR ''%'' then
        vsnprintf_loop max_len mem args fmt2 n (write_char max_len c1 s)
      else if curn \<ge> args_count args then
        (if c1 = 0 then (Some Read_past_terminator, s)
         else vsnprintf_loop max_len mem args fmt2 (n + 1) s)
      else
        (case arg_ll args curn of
           None \<Rightarrow> (Some Bad_index, s)
         | Some curarg \<Rightarrow>
             (case fst (convert max_len mem c1 sp curarg s) of
                Some e \<Rightarrow> (Some e, snd (convert max_len mem c1 sp curarg s))
              | None \<Rightarrow>
                  if c1 = 0
                  then (Some Read_past_terminator, snd (convert max_len mem c1 sp curarg s))
                  else vsnprintf_loop max_len mem args fmt2 (n + 1)
                         (snd (convert max_len mem c1 sp curarg s)))))"
  using assms
  by (simp add: vsnprintf_loop.simps [of _ _ _ "_ # _"] split: prod.splits option.splits)

lemma vsnprintf_loop_sim:
  assumes "wsim m1 m2 R" and "R s t"
  shows "fst (vsnprintf_loop m1 mem args fmt n s) = fst (vsnprintf_loop m2 mem args fmt n t) \<and>
         R (snd (vsnprintf_loop m1 mem args fmt n s)) (snd (vsnprintf_loop m2 mem args fmt n t))"
  using assms
proof (induction m1 mem args fmt n s arbitrary: t rule: vsnprintf_loop.induct)
  case (1 m1 mem args fmt0 n s)
  note sim = "1.prems"(1) and rel = "1.prems"(2)
  show ?case
  proof (cases fmt0)
    case Nil
    then show ?thesis using rel by (simp add: vsnprintf_loop_end)
  next
    case (Cons c fmt)
    note fmt0 = Cons
    show ?thesis
    proof (cases "c = 0")
      case True
      then show ?thesis using rel fmt0 by (simp add: vsnprintf_loop_end)
    next
      case c0: False
      show ?thesis
      proof (cases "c \<noteq> B CHR ''%''")
        case True
        have "R (write_char m1 c s) (write_char m2 c t)" using sim rel by (rule wsimD)
        from "1.IH"(1) [OF fmt0 c0 True sim this]
        show ?thesis unfolding fmt0 by (simp only: vsnprintf_loop_literal [OF c0 True])
      next
        case False
        then have pc: "c = B CHR ''%''" by simp
        show ?thesis
        proof (cases "rescan fmt n init_fspec")
          case (Inl e)
          then show ?thesis using rel unfolding fmt0
            by (simp add: vsnprintf_loop_fault [OF pc])
        next
          case (Inr r)
          obtain fmt1 curn sp where r: "r = (fmt1, curn, sp)" by (cases r)
          obtain c1 longfmt fmt2 where rc: "read_conv fmt1 = (c1, longfmt, fmt2)"
            by (cases "read_conv fmt1")
          note rs = Inr [unfolded r]
          note unf = vsnprintf_loop_directive [OF pc rs rc]
          note IH = "1.IH"(2-) [OF fmt0 c0 False Inr r [symmetric] refl rc [symmetric] refl]
          show ?thesis
          proof (cases "c1 = B CHR ''%''")
            case True
            have "R (write_char m1 c1 s) (write_char m2 c1 t)" using sim rel by (rule wsimD)
            from IH(1) [OF True sim this]
            show ?thesis unfolding fmt0 unf using True by simp
          next
            case npc: False
            show ?thesis
            proof (cases "curn \<ge> args_count args")
              case True
              show ?thesis
              proof (cases "c1 = 0")
                case True
                then show ?thesis unfolding fmt0 unf using npc \<open>curn \<ge> args_count args\<close> rel
                  by simp
              next
                case False
                from IH(2) [OF npc True False sim rel]
                show ?thesis unfolding fmt0 unf using npc True False by simp
              qed
            next
              case nge: False
              show ?thesis
              proof (cases "arg_ll args curn")
                case None
                then show ?thesis unfolding fmt0 unf using npc nge rel by simp
              next
                case (Some curarg)
                note cv = convert_sim [OF sim rel, of mem c1 sp curarg]
                show ?thesis
                proof (cases "fst (convert m1 mem c1 sp curarg s)")
                  case (Some e)
                  then show ?thesis unfolding fmt0 unf using npc nge cv \<open>arg_ll args curn = Some curarg\<close>
                    by simp
                next
                  case None
                  show ?thesis
                  proof (cases "c1 = 0")
                    case True
                    then show ?thesis unfolding fmt0 unf
                      using npc nge cv None \<open>arg_ll args curn = Some curarg\<close> by simp
                  next
                    case False
                    have e: "convert m1 mem c1 sp curarg s = (None, snd (convert m1 mem c1 sp curarg s))"
                      using None by (simp add: prod_eq_iff)
                    from IH(3) [OF npc nge \<open>arg_ll args curn = Some curarg\<close> e [symmetric] refl False sim]
                      cv
                    show ?thesis unfolding fmt0 unf
                      using npc nge None False \<open>arg_ll args curn = Some curarg\<close> by simp
                  qed
                qed
              qed
            qed
          qed
        qed
      qed
    qed
  qed
qed

subsection \<open>What the writer leaves alone\<close>

lemma count_write_char: "count (write_char max_len ch s) = count s + 1"
  by (simp add: write_char_def)

lemma wsim_count: "wsim m1 m2 (\<lambda>s t. count s = count t)"
  by (simp add: wsim_def count_write_char)

lemma wsim_null: "wsim m1 m2 (\<lambda>s t. str s = None)"
  by (simp add: wsim_def write_char_def)

text \<open>
  \<open>kept max_len b s\<close>: the destination of \<open>s\<close> is there and agrees with the memory
  \<open>b\<close> from index \<open>max_len\<close> on.
\<close>

definition kept :: "u64 \<Rightarrow> (nat \<Rightarrow> byte) \<Rightarrow> wstate \<Rightarrow> bool" where
  "kept max_len b s = (\<exists>b'. str s = Some b' \<and> (\<forall>i. unat max_len \<le> i \<longrightarrow> b' i = b i))"

lemma kept_write_char: "kept max_len b s \<Longrightarrow> kept max_len b (write_char max_len ch s)"
  by (auto simp: kept_def write_char_def word_less_nat_alt)

lemma wsim_kept: "wsim max_len m2 (\<lambda>s t. kept max_len b s)"
  by (simp add: wsim_def kept_write_char)

text \<open>
  \<open>same_below max_len s t\<close>: two runs with the same capacity have the same count,
  and their destinations agree at every index below the capacity that the count
  has passed.
\<close>

definition same_below :: "u64 \<Rightarrow> wstate \<Rightarrow> wstate \<Rightarrow> bool" where
  "same_below max_len s t =
     (count s = count t \<and>
      (\<exists>b c. str s = Some b \<and> str t = Some c \<and>
         (\<forall>i. i < unat max_len \<longrightarrow> b i = c i \<or> unat (count s) \<le> i)))"

lemma unat_Suc_le: "unat (x + 1 :: u64) \<le> unat x + 1"
proof -
  have "unat (x + 1) = (unat x + unat (1 :: u64)) mod 2 ^ LENGTH(64)"
    by (rule unat_word_ariths)
  also have "\<dots> \<le> unat x + unat (1 :: u64)" by (rule mod_less_eq_dividend)
  finally show ?thesis by simp
qed

lemma wsim_same_below: "wsim max_len max_len (same_below max_len)"
proof -
  have "same_below max_len (write_char max_len ch s) (write_char max_len ch t)"
    if r: "same_below max_len s t" for ch s t
  proof -
    obtain b c where b: "str s = Some b" and c: "str t = Some c" and ct: "count s = count t"
      and ag: "\<And>i. i < unat max_len \<Longrightarrow> b i = c i \<or> unat (count s) \<le> i"
      using r by (auto simp: same_below_def)
    have nx: "unat (count s + 1) \<le> unat (count s) + 1" by (rule unat_Suc_le)
    show ?thesis
    proof (cases "count s < max_len")
      case True
      have "(b(unat (count s) := ch)) i = (c(unat (count s) := ch)) i \<or> unat (count s + 1) \<le> i"
        if "i < unat max_len" for i
        using ag [OF that] nx by (cases "i = unat (count s)") auto
      then show ?thesis using True b c ct by (simp add: same_below_def write_char_def)
    next
      case False
      then have "unat max_len \<le> unat (count s)" by (simp add: word_less_nat_alt)
      then have "b i = c i" if "i < unat max_len" for i using ag [OF that] that by auto
      then show ?thesis using False b c ct by (simp add: same_below_def write_char_def)
    qed
  qed
  then show ?thesis by (simp add: wsim_def)
qed

subsection \<open>The UTF-8 encoder of \<^verbatim>\<open>%C\<close>\<close>

lemma utf8_tail_neg: "utf8_tail max_len code (- 6) s = s"
  by (simp add: utf8_tail.simps [of _ _ "- 6"])

lemma utf8_tail_0:
  "utf8_tail max_len code 0 s = write_char max_len (ucast (0x80 OR (0x3f AND code))) s"
  by (simp add: utf8_tail.simps [of _ _ 0] utf8_tail_neg)

lemma utf8_tail_6:
  "utf8_tail max_len code 6 s =
     utf8_tail max_len code 0 (write_char max_len (ucast (0x80 OR (0x3f AND drop_bit 6 code))) s)"
  by (simp add: utf8_tail.simps [of _ _ 6])

lemma utf8_tail_12:
  "utf8_tail max_len code 12 s =
     utf8_tail max_len code 6 (write_char max_len (ucast (0x80 OR (0x3f AND drop_bit 12 code))) s)"
  by (simp add: utf8_tail.simps [of _ _ 12])

lemmas utf8_tail_unfold = utf8_tail_neg utf8_tail_0 utf8_tail_6 utf8_tail_12

lemma ucast_or_byte: "(ucast (m OR x :: u32) :: byte) = ucast m OR ucast x"
  by (rule unsigned_or_eq)

lemma ucast_and_byte: "(ucast (0x3f AND x :: u32) :: byte) = 0x3f AND ucast x"
  by (simp add: unsigned_and_eq)

lemma unat_drop_bit_u32: "unat (drop_bit k (code :: u32)) = unat code div 2 ^ k"
proof -
  have "unat (drop_bit k code) = drop_bit k (unat code)" by (rule unat_drop_bit_eq)
  also have "\<dots> = unat code div 2 ^ k" by (rule drop_bit_eq_div)
  finally show ?thesis .
qed

lemma lead_bits:
  fixes code :: u32
  shows "code \<le> 0x7ff \<Longrightarrow> drop_bit 6 code \<le> 0x1f"
    and "code \<le> 0xffff \<Longrightarrow> drop_bit 12 code \<le> 0xf"
    and "code \<le> 0x10ffff \<Longrightarrow> drop_bit 18 code \<le> 0x4"
  by (simp_all add: word_le_nat_alt unat_drop_bit_u32)

text \<open>
  Claim C9. The case \<^verbatim>\<open>C\<close> of the renderer emits, for the argument cut to the
  32-bit \<open>code\<close>: up to \<^verbatim>\<open>0x7F\<close> the byte itself; up to \<^verbatim>\<open>0x7FF\<close> the lead byte
  \<^verbatim>\<open>0xC0 | (code >> 6)\<close> and one continuation byte; up to \<^verbatim>\<open>0xFFFF\<close> the lead byte
  \<^verbatim>\<open>0xE0 | (code >> 12)\<close> and two continuation bytes; up to \<^verbatim>\<open>0x10FFFF\<close> the lead
  byte \<^verbatim>\<open>0xF0 | (code >> 18)\<close> and three continuation bytes; above that the single
  byte \<^verbatim>\<open>?\<close>. A continuation byte is \<^verbatim>\<open>0x80\<close> or-ed with a 6-bit chunk, the most
  significant chunk first, and the bits of a lead byte fit below its marker.
\<close>

theorem conv_C_utf8:
  fixes curarg :: u64
  defines "code \<equiv> (ucast curarg :: u32)"
  shows "convert max_len mem (B CHR ''C'') sp curarg s = (None, conv_C max_len curarg s) \<and>
    (code \<le> 0x7f \<longrightarrow>
       conv_C max_len curarg s = write_string max_len [ucast code] s) \<and>
    (0x7f < code \<and> code \<le> 0x7ff \<longrightarrow>
       conv_C max_len curarg s = write_string max_len
         [0xc0 OR ucast (drop_bit 6 code),
          0x80 OR (0x3f AND ucast code)] s \<and>
       drop_bit 6 code \<le> 0x1f) \<and>
    (0x7ff < code \<and> code \<le> 0xffff \<longrightarrow>
       conv_C max_len curarg s = write_string max_len
         [0xe0 OR ucast (drop_bit 12 code),
          0x80 OR (0x3f AND ucast (drop_bit 6 code)),
          0x80 OR (0x3f AND ucast code)] s \<and>
       drop_bit 12 code \<le> 0xf) \<and>
    (0xffff < code \<and> code \<le> 0x10ffff \<longrightarrow>
       conv_C max_len curarg s = write_string max_len
         [0xf0 OR ucast (drop_bit 18 code),
          0x80 OR (0x3f AND ucast (drop_bit 12 code)),
          0x80 OR (0x3f AND ucast (drop_bit 6 code)),
          0x80 OR (0x3f AND ucast code)] s \<and>
       drop_bit 18 code \<le> 0x4) \<and>
    (0x10ffff < code \<longrightarrow>
       conv_C max_len curarg s = write_string max_len [B CHR ''?''] s)"
proof -
  have 0: "convert max_len mem (B CHR ''C'') sp curarg s = (None, conv_C max_len curarg s)"
    by (simp add: convert_def)
  have 1: "conv_C max_len curarg s = write_string max_len [ucast code] s" if "code \<le> 0x7f"
    using that by (simp add: conv_C_def Let_def code_def utf8_tail_unfold)
  have 2: "conv_C max_len curarg s = write_string max_len
         [0xc0 OR ucast (drop_bit 6 code), 0x80 OR (0x3f AND ucast code)] s"
    if "0x7f < code" "code \<le> 0x7ff"
    using that unfolding code_def
    by (simp add: conv_C_def Let_def utf8_tail_unfold ucast_or_byte ucast_and_byte)
  have 3: "conv_C max_len curarg s = write_string max_len
         [0xe0 OR ucast (drop_bit 12 code),
          0x80 OR (0x3f AND ucast (drop_bit 6 code)),
          0x80 OR (0x3f AND ucast code)] s"
    if "0x7ff < code" "code \<le> 0xffff"
  proof -
    have "\<not> code \<le> 0x7f" using that(1) by (simp add: word_le_nat_alt word_less_nat_alt)
    then show ?thesis using that unfolding code_def
      by (simp add: conv_C_def Let_def utf8_tail_unfold ucast_or_byte ucast_and_byte)
  qed
  have 4: "conv_C max_len curarg s = write_string max_len
         [0xf0 OR ucast (drop_bit 18 code),
          0x80 OR (0x3f AND ucast (drop_bit 12 code)),
          0x80 OR (0x3f AND ucast (drop_bit 6 code)),
          0x80 OR (0x3f AND ucast code)] s"
    if "0xffff < code" "code \<le> 0x10ffff"
  proof -
    have "\<not> code \<le> 0x7f" "\<not> code \<le> 0x7ff"
      using that(1) by (simp_all add: word_le_nat_alt word_less_nat_alt)
    then show ?thesis using that unfolding code_def
      by (simp add: conv_C_def Let_def utf8_tail_unfold ucast_or_byte ucast_and_byte)
  qed
  have 5: "conv_C max_len curarg s = write_string max_len [B CHR ''?''] s" if "0x10ffff < code"
  proof -
    have "\<not> code \<le> 0x7f" "\<not> code \<le> 0x7ff" "\<not> code \<le> 0xffff" "\<not> code \<le> 0x10ffff"
      using that by (simp_all add: word_le_nat_alt word_less_nat_alt)
    then show ?thesis unfolding code_def
      by (simp add: conv_C_def Let_def utf8_tail_unfold)
  qed
  from 0 1 2 3 4 5 lead_bits [of code] show ?thesis by blast
qed

theorem conv_C_utf8_witness:
  "(0x7f :: u32) < ucast (0x3b1 :: u64) \<and> (ucast (0x3b1 :: u64) :: u32) \<le> 0x7ff \<and>
   conv_C 8 0x3b1 \<lparr>str = Some blank, count = 0\<rparr> =
     \<lparr>str = Some (blank(0 := 0xce, 1 := 0xb1)), count = 2\<rparr> \<and>
   (0xffff :: u32) < ucast (0x1f600 :: u64) \<and> (ucast (0x1f600 :: u64) :: u32) \<le> 0x10ffff \<and>
   conv_C 8 0x1f600 \<lparr>str = Some blank, count = 0\<rparr> =
     \<lparr>str = Some (blank(0 := 0xf0, 1 := 0x9f, 2 := 0x98, 3 := 0x80)), count = 4\<rparr> \<and>
   (0x10ffff :: u32) < ucast (0x110000 :: u64) \<and>
   conv_C 8 0x110000 \<lparr>str = Some blank, count = 0\<rparr> =
     \<lparr>str = Some (blank(0 := B CHR ''?'')), count = 1\<rparr>"
proof -
  let ?s = "\<lparr>str = Some blank, count = 0\<rparr>"
  have a: "(0x7f :: u32) < ucast (0x3b1 :: u64) \<and> (ucast (0x3b1 :: u64) :: u32) \<le> 0x7ff"
    and b: "(0xffff :: u32) < ucast (0x1f600 :: u64) \<and> (ucast (0x1f600 :: u64) :: u32) \<le> 0x10ffff"
    and c: "(0x10ffff :: u32) < ucast (0x110000 :: u64)"
    by (simp_all add: word_le_nat_alt word_less_nat_alt)
  from a b c conv_C_utf8 [of 8 no_strings init_fspec "0x3b1" ?s]
    conv_C_utf8 [of 8 no_strings init_fspec "0x1f600" ?s]
    conv_C_utf8 [of 8 no_strings init_fspec "0x110000" ?s]
  show ?thesis by (simp add: write_char_def word_less_nat_alt)
qed

subsection \<open>The digits of \<^verbatim>\<open>grub_lltoa\<close>\<close>

lemma ucast_byte_nonzero:
  fixes w :: "'a::len word"
  assumes "0 < unat w" and "unat w < 256"
  shows "(ucast w :: byte) \<noteq> 0"
proof -
  have "unat (ucast w :: byte) = take_bit LENGTH(8) (unat w)" by (rule unsigned_ucast_eq)
  also have "\<dots> = unat w" using assms(2) by (simp add: take_bit_nat_eq_self)
  finally have "0 < unat (ucast w :: byte)" using assms(1) by simp
  then show ?thesis by (simp add: unat_gt_0)
qed

lemma unat_add_small_u64:
  fixes m :: u64
  assumes "unat m < 16" and "k < 256"
  shows "unat (m + of_nat k) = unat m + k"
proof -
  have k: "unat (of_nat k :: u64) = k" using assms(2) by (simp add: unat_of_nat take_bit_nat_eq_self)
  have "unat m + unat (of_nat k :: u64) < 2 ^ LENGTH(64)" using assms k by simp
  then have "unat (m + of_nat k) = unat m + unat (of_nat k :: u64)" by (simp only: unat_add_lem)
  then show ?thesis using k by simp
qed

lemma unat_add_small_u32:
  fixes m :: u32
  assumes "unat m < 16" and "k < 256"
  shows "unat (m + of_nat k) = unat m + k"
proof -
  have k: "unat (of_nat k :: u32) = k" using assms(2) by (simp add: unat_of_nat take_bit_nat_eq_self)
  have "unat m + unat (of_nat k :: u32) < 2 ^ LENGTH(32)" using assms k by simp
  then have "unat (m + of_nat k) = unat m + unat (of_nat k :: u32)" by (simp only: unat_add_lem)
  then show ?thesis using k by simp
qed

lemma dec_digit_nonzero:
  fixes n :: u64
  shows "(ucast (n mod 10 + ucast (B CHR ''0'')) :: byte) \<noteq> 0"
proof -
  have "unat (n mod 10) < 10" by (simp add: unat_mod)
  then have "unat (n mod 10 + of_nat 48) = unat (n mod 10) + 48"
    by (intro unat_add_small_u64) simp_all
  then have "0 < unat (n mod 10 + 48) \<and> unat (n mod 10 + 48) < 256"
    using \<open>unat (n mod 10) < 10\<close> by simp
  then have "(ucast (n mod 10 + 48) :: byte) \<noteq> 0" by (intro ucast_byte_nonzero) simp_all
  then show ?thesis by simp
qed

lemma hex_digit_nonzero:
  fixes n :: u64
  defines "d \<equiv> (ucast (n AND 0xf) :: u32)"
  shows "(ucast (if d > 9
                then d + (if c = B CHR ''x'' then ucast (B CHR ''a'') else ucast (B CHR ''A'')) - 10
                else d + ucast (B CHR ''0'')) :: byte) \<noteq> 0"
proof -
  have "unat (n AND 0xf) \<le> unat (0xf :: u64)"
    by (rule word_and_le1 [THEN word_le_nat_alt [THEN iffD1]])
  then have n16: "unat (n AND 0xf) < 16" by simp
  have "unat d = take_bit LENGTH(32) (unat (n AND 0xf))" unfolding d_def by (rule unsigned_ucast_eq)
  also have "\<dots> = unat (n AND 0xf)" using n16 by (simp add: take_bit_nat_eq_self)
  finally have d16: "unat d < 16" using n16 by simp
  have a: "unat (d + of_nat k) = unat d + k" if "k < 256" for k
    using d16 that by (rule unat_add_small_u32)
  have "0 < unat (d + of_nat k) \<and> unat (d + of_nat k) < 256" if "0 < k" "k < 200" for k
    using a [of k] that d16 by simp
  then have nz: "(ucast (d + of_nat k) :: byte) \<noteq> 0" if "0 < k" "k < 200" for k
    using that by (intro ucast_byte_nonzero) simp_all
  have x: "d + ucast (B CHR ''a'') - 10 = d + of_nat 87" by simp
  have y: "d + ucast (B CHR ''A'') - 10 = d + of_nat 55" by simp
  have z: "d + ucast (B CHR ''0'') = d + of_nat 48" by simp
  show ?thesis using nz [of 87] nz [of 55] nz [of 48] unfolding x [symmetric] y [symmetric] z [symmetric]
    by (simp split: if_splits)
qed

lemma lltoa_hex_nonzero: "0 \<notin> set (lltoa_hex c n)"
proof (induction c n rule: lltoa_hex.induct)
  case (1 c n)
  show ?case
    using "1.IH" hex_digit_nonzero [of n c]
    by (subst lltoa_hex.simps) (auto simp: Let_def simp del: of_char_eq_iff)
qed

lemma lltoa_dec_Some: "\<exists>ds. lltoa_dec n = Some ds \<and> 0 \<notin> set ds"
proof (induction n rule: lltoa_dec.induct)
  case (1 n)
  have t: "(10 :: u64) \<noteq> 0" by simp
  note dm = grub_divmod64_div_mod [OF t, of GRUB_DIVISION_IN_SOFTWARE n]
  show ?case
  proof (cases "n div 10 = 0")
    case True
    then show ?thesis using dm dec_digit_nonzero [of n]
      by (subst lltoa_dec.simps) simp
  next
    case False
    from "1.IH" [OF dm refl False] obtain ds where "lltoa_dec (n div 10) = Some ds" "0 \<notin> set ds"
      by blast
    then show ?thesis using dm False dec_digit_nonzero [of n]
      by (subst lltoa_dec.simps) simp
  qed
qed

lemma grub_lltoa_Some: "\<exists>tmp. grub_lltoa c n = Some tmp \<and> 0 \<notin> set tmp"
proof -
  obtain n1 sign where
    g: "grub_lltoa c n = (if c = B CHR ''x'' \<or> c = B CHR ''X''
         then Some (sign @ rev (lltoa_hex c n1))
         else (case lltoa_dec n1 of None \<Rightarrow> None | Some ds \<Rightarrow> Some (sign @ rev ds)))"
    and s: "(0 :: byte) \<notin> set sign"
    by (auto simp: grub_lltoa_def Let_def)
  obtain ds where "lltoa_dec n1 = Some ds" "0 \<notin> set ds" using lltoa_dec_Some by blast
  then show ?thesis using g s lltoa_hex_nonzero [of c n1] by auto
qed

subsection \<open>Evaluating the renderer on concrete inputs\<close>

lemma write_fill_numeral:
  "write_fill max_len (numeral k) ch s =
     write_fill max_len (pred_numeral k) ch (write_char max_len ch s)"
  by (simp add: numeral_eq_Suc)

lemma unat_max_u32: "unat (- 1 :: u32) = 4294967295"
proof -
  have "(- 1 :: u32) = 4294967295" by simp
  then have "unat (- 1 :: u32) = unat (4294967295 :: u32)" by (simp only:)
  then show ?thesis by simp
qed

lemmas render_eval =
  grub_vsnprintf_real_def vsnprintf_loop_end vsnprintf_loop_literal vsnprintf_loop_directive
  vsnprintf_loop_fault rescan.simps read_params_def read_conv_def init_fspec_def strtoul_fmt_def
  grub_strtoul_def grub_strtoull_def strtoull_end_def grub_isspace_def grub_isdigit_def
  grub_tolower_def deref_def arg_ll_def convert_def conv_integer_def conv_s_def conv_C_def
  utf8_tail_unfold grub_lltoa_def lltoa_dec.simps lltoa_hex.simps grub_divmod64_div_mod
  GRUB_DIVISION_IN_SOFTWARE_def write_char_def write_fill_numeral Let_def
  word_le_nat_alt word_less_nat_alt unat_max_u32

lemma vsnprintf_loop_kept:
  "kept max_len b (snd (vsnprintf_loop max_len mem args fmt n \<lparr>str = Some b, count = c\<rparr>))"
proof -
  have "kept max_len b \<lparr>str = Some b, count = c\<rparr>" by (simp add: kept_def)
  from vsnprintf_loop_sim [OF wsim_kept [of max_len max_len b] this]
  show ?thesis by simp
qed

lemma vsnprintf_loop_null:
  "str (snd (vsnprintf_loop max_len mem args fmt n \<lparr>str = None, count = c\<rparr>)) = None"
proof -
  have "str \<lparr>str = None, count = c\<rparr> = None" by simp
  from vsnprintf_loop_sim [OF wsim_null [of max_len max_len] this]
  show ?thesis by simp
qed

lemma vsnprintf_loop_count:
  "fst (vsnprintf_loop m1 mem args fmt n \<lparr>str = d1, count = c\<rparr>) =
     fst (vsnprintf_loop m2 mem args fmt n \<lparr>str = d2, count = c\<rparr>) \<and>
   count (snd (vsnprintf_loop m1 mem args fmt n \<lparr>str = d1, count = c\<rparr>)) =
     count (snd (vsnprintf_loop m2 mem args fmt n \<lparr>str = d2, count = c\<rparr>))"
proof -
  have "count \<lparr>str = d1, count = c\<rparr> = count \<lparr>str = d2, count = c\<rparr>" by simp
  from vsnprintf_loop_sim [OF wsim_count [of m1 m2] this]
  show ?thesis by simp
qed

lemma vsnprintf_loop_same_below:
  "same_below max_len (snd (vsnprintf_loop max_len mem args fmt n \<lparr>str = Some b1, count = 0\<rparr>))
     (snd (vsnprintf_loop max_len mem args fmt n \<lparr>str = Some b2, count = 0\<rparr>))"
proof -
  have "same_below max_len \<lparr>str = Some b1, count = 0\<rparr> \<lparr>str = Some b2, count = 0\<rparr>"
    by (simp add: same_below_def)
  from vsnprintf_loop_sim [OF wsim_same_below this]
  show ?thesis by simp
qed

lemma unat_minus_one_less: "(w :: u64) \<noteq> 0 \<Longrightarrow> unat (w - 1) < unat w"
  by (simp add: unat_minus_one unat_gt_0)

text \<open>The renderer's result in terms of the state its loop ends in.\<close>

definition terminate :: "u64 \<Rightarrow> wstate \<Rightarrow> (nat \<Rightarrow> byte) option" where
  "terminate max_len s =
     (case str s of
        None \<Rightarrow> None
      | Some b \<Rightarrow>
          if count s < max_len then Some (b(unat (count s) := 0))
          else if max_len > 0 then Some (b(unat (max_len - 1) := 0))
          else Some b)"

lemma grub_vsnprintf_real_loop:
  "grub_vsnprintf_real mem d max_len fmt args =
     (let r = vsnprintf_loop max_len mem args fmt 0 \<lparr>str = d, count = 0\<rparr> in
      case fst r of
        Some e \<Rightarrow> (Inl e, str (snd r))
      | None \<Rightarrow> (Inr (ucast (count (snd r))), terminate max_len (snd r)))"
  by (simp add: grub_vsnprintf_real_def terminate_def Let_def split: prod.splits option.splits)

lemma kept_terminate:
  assumes "kept max_len b s"
  shows "\<exists>b'. terminate max_len s = Some b' \<and> (\<forall>i. unat max_len \<le> i \<longrightarrow> b' i = b i)"
proof -
  obtain b0 where b0: "str s = Some b0" and fr: "\<And>i. unat max_len \<le> i \<Longrightarrow> b0 i = b i"
    using assms by (auto simp: kept_def)
  show ?thesis
  proof (cases "count s < max_len")
    case True
    then have "unat (count s) < unat max_len" by (simp add: word_less_nat_alt)
    then show ?thesis using True b0 fr by (auto simp: terminate_def)
  next
    case False
    show ?thesis
    proof (cases "max_len = 0")
      case True
      then show ?thesis using False b0 fr by (auto simp: terminate_def)
    next
      case nz: False
      then have "unat (max_len - 1) < unat max_len" by (rule unat_minus_one_less)
      moreover have "0 < max_len" using nz by (simp add: word_greater_zero_iff)
      ultimately show ?thesis using False b0 fr by (auto simp: terminate_def)
    qed
  qed
qed

text \<open>
  Claim C1. For every format string, argument list, destination and capacity
  \<open>max_len\<close>: the memory of the destination is unchanged at every index from
  \<open>max_len\<close> on when \<^verbatim>\<open>grub_vsnprintf_real\<close> returns or stops (this covers the final
  terminator), a single \<^verbatim>\<open>write_char\<close> leaves those indices alone and always
  adds one to the count, and the run ends as the run without a destination does:
  with the same returned value and the same logical count.
\<close>

theorem grub_vsnprintf_real_bounded:
  "(\<exists>b'. snd (grub_vsnprintf_real mem (Some b) max_len fmt args) = Some b' \<and>
         (\<forall>i. unat max_len \<le> i \<longrightarrow> b' i = b i)) \<and>
   fst (grub_vsnprintf_real mem (Some b) max_len fmt args) =
     fst (grub_vsnprintf_real mem None 0 fmt args) \<and>
   count (snd (vsnprintf_loop max_len mem args fmt 0 \<lparr>str = Some b, count = 0\<rparr>)) =
     count (snd (vsnprintf_loop 0 mem args fmt 0 \<lparr>str = None, count = 0\<rparr>)) \<and>
   count (write_char max_len ch s) = count s + 1 \<and>
   (\<forall>b0 i. str s = Some b0 \<and> unat max_len \<le> i \<longrightarrow>
      (\<exists>b1. str (write_char max_len ch s) = Some b1 \<and> b1 i = b0 i))"
proof -
  let ?r = "vsnprintf_loop max_len mem args fmt 0 \<lparr>str = Some b, count = 0\<rparr>"
  let ?d = "vsnprintf_loop 0 mem args fmt 0 \<lparr>str = None, count = 0\<rparr>"
  have k: "kept max_len b (snd ?r)" by (rule vsnprintf_loop_kept)
  have c: "fst ?r = fst ?d \<and> count (snd ?r) = count (snd ?d)" by (rule vsnprintf_loop_count)
  have 1: "\<exists>b'. snd (grub_vsnprintf_real mem (Some b) max_len fmt args) = Some b' \<and>
         (\<forall>i. unat max_len \<le> i \<longrightarrow> b' i = b i)"
  proof (cases "fst ?r")
    case None
    then show ?thesis using kept_terminate [OF k] by (simp add: grub_vsnprintf_real_loop Let_def)
  next
    case (Some e)
    then show ?thesis using k by (auto simp: grub_vsnprintf_real_loop kept_def Let_def)
  qed
  have 2: "fst (grub_vsnprintf_real mem (Some b) max_len fmt args) =
     fst (grub_vsnprintf_real mem None 0 fmt args)"
    using c by (simp add: grub_vsnprintf_real_loop Let_def split: option.splits)
  have 3: "\<forall>b0 i. str s = Some b0 \<and> unat max_len \<le> i \<longrightarrow>
      (\<exists>b1. str (write_char max_len ch s) = Some b1 \<and> b1 i = b0 i)"
    by (auto simp: write_char_def word_less_nat_alt)
  from 1 2 3 c show ?thesis by (simp add: count_write_char)
qed

theorem grub_vsnprintf_real_bounded_witness:
  "grub_vsnprintf_real no_strings (Some blank) 2 (cstr ''%d|'')
     \<lparr>args_ptr = [42], args_count = 1\<rparr> =
       (Inr 3, Some (blank(0 := B CHR ''4'', 1 := 0))) \<and>
   unat (2 :: u64) \<le> 2 \<and> (blank(0 := B CHR ''4'', 1 := 0)) 2 = blank 2 \<and>
   fst (grub_vsnprintf_real no_strings None 0 (cstr ''%d|'')
     \<lparr>args_ptr = [42], args_count = 1\<rparr>) = Inr 3"
proof -
  let ?args = "\<lparr>args_ptr = [42], args_count = 1\<rparr>"
  have e: "grub_vsnprintf_real no_strings (Some blank) 2 (cstr ''%d|'') ?args =
       (Inr 3, Some (blank(0 := B CHR ''4'', 1 := 0)))"
    by (simp add: render_eval)
  have h: "unat (2 :: u64) \<le> 2" by simp
  from grub_vsnprintf_real_bounded [of no_strings blank 2 "cstr ''%d|''" ?args] e h
  show ?thesis by auto
qed

lemma sint_cint_bound: "sint (L :: cint) < 2 ^ 31"
  using sint_lt [of L] by simp

lemma unat_scast_nonneg:
  fixes L :: cint
  assumes "0 \<le> sint L"
  shows "unat (scast L :: u64) = nat (sint L)"
proof -
  have b: "sint L < 2 ^ 64" using sint_cint_bound [of L] by simp
  have "uint (word_of_int (sint L) :: u64) = sint L mod 2 ^ LENGTH(64)"
    by (rule uint_word_of_int)
  also have "\<dots> = sint L" using assms b by simp
  finally have u: "uint (scast L :: u64) = sint L" by (simp only: scast_eq)
  have "unat (scast L :: u64) = nat (uint (scast L :: u64))" by (rule unat_eq_nat_uint)
  then show ?thesis by (simp only: u)
qed

lemma sint_nonneg_unat:
  fixes L :: cint
  assumes "0 \<le> sint L"
  shows "nat (sint L) = unat L"
proof -
  have b: "sint L < 2 ^ 32" using sint_cint_bound [of L] by simp
  have "uint (word_of_int (sint L) :: cint) = sint L mod 2 ^ LENGTH(32)"
    by (rule uint_word_of_int)
  also have "\<dots> = sint L" using assms b by simp
  finally have "uint (word_of_int (sint L) :: cint) = sint L" .
  moreover have "(word_of_int (sint L) :: cint) = L" by simp
  ultimately have u: "uint L = sint L" by (simp only:)
  have "unat L = nat (uint L)" by (rule unat_eq_nat_uint)
  then show ?thesis by (simp only: u)
qed

lemma unat_ucast_le: "unat (ucast (c :: u64) :: cint) \<le> unat c"
  by (metis (mono_tags, lifting) le_unat_uoi linorder_linear of_nat_unat)

text \<open>
  Claim C3. Let a run without a destination return the length \<open>L\<close> (an \<^verbatim>\<open>int\<close>
  that is not negative). Then the same render into a destination of capacity \<open>L\<close>
  returns \<open>L\<close> again and writes exactly the \<open>L\<close> bytes at the indices below \<open>L\<close>:
  whatever the destination held there before is gone (two runs from different
  memories agree below \<open>L\<close>), and every byte from index \<open>L\<close> on is as before.
\<close>

theorem grub_vsnprintf_real_dry_run_length:
  assumes "fst (grub_vsnprintf_real mem None 0 fmt args) = Inr L" and "0 \<le> sint L"
  shows "\<exists>b1' b2'.
           grub_vsnprintf_real mem (Some b1) (scast L) fmt args = (Inr L, Some b1') \<and>
           grub_vsnprintf_real mem (Some b2) (scast L) fmt args = (Inr L, Some b2') \<and>
           (\<forall>i. i < nat (sint L) \<longrightarrow> b1' i = b2' i) \<and>
           (\<forall>i. nat (sint L) \<le> i \<longrightarrow> b1' i = b1 i)"
proof -
  let ?k = "scast L :: u64"
  let ?d = "vsnprintf_loop 0 mem args fmt 0 \<lparr>str = None, count = 0\<rparr>"
  let ?r1 = "vsnprintf_loop ?k mem args fmt 0 \<lparr>str = Some b1, count = 0\<rparr>"
  let ?r2 = "vsnprintf_loop ?k mem args fmt 0 \<lparr>str = Some b2, count = 0\<rparr>"
  have d: "fst ?d = None" and L: "L = ucast (count (snd ?d))"
    using assms(1) by (auto simp: grub_vsnprintf_real_loop Let_def split: option.splits)
  have c1: "fst ?r1 = None" "count (snd ?r1) = count (snd ?d)"
    using vsnprintf_loop_count [of ?k mem args fmt 0 "Some b1" 0 0 None] d by simp_all
  have c2: "fst ?r2 = None" "count (snd ?r2) = count (snd ?d)"
    using vsnprintf_loop_count [of ?k mem args fmt 0 "Some b2" 0 0 None] d by simp_all
  have k: "unat ?k = nat (sint L)" using assms(2) by (rule unat_scast_nonneg)
  have "unat L \<le> unat (count (snd ?d))" unfolding L by (rule unat_ucast_le)
  then have kc: "unat ?k \<le> unat (count (snd ?d))"
    using k sint_nonneg_unat [OF assms(2)] by simp
  have nlt: "\<not> count (snd ?r1) < ?k" "\<not> count (snd ?r2) < ?k"
    using kc c1(2) c2(2) by (simp_all add: word_less_nat_alt)
  obtain a1 where a1: "str (snd ?r1) = Some a1" and f1: "\<And>i. unat ?k \<le> i \<Longrightarrow> a1 i = b1 i"
    using vsnprintf_loop_kept [of ?k b1 mem args fmt 0 0] by (auto simp: kept_def)
  obtain a2 where a2: "str (snd ?r2) = Some a2"
    using vsnprintf_loop_kept [of ?k b2 mem args fmt 0 0] by (auto simp: kept_def)
  have ag: "a1 i = a2 i" if "i < unat ?k" for i
  proof -
    have "a1 i = a2 i \<or> unat (count (snd ?r1)) \<le> i"
      using vsnprintf_loop_same_below [of ?k mem args fmt 0 b1 b2] a1 a2 that
      by (auto simp: same_below_def)
    then show ?thesis using that kc c1(2) by auto
  qed
  define z where "z = (\<lambda>a :: nat \<Rightarrow> byte. if ?k > 0 then a(unat (?k - 1) := 0) else a)"
  have t1: "terminate ?k (snd ?r1) = Some (z a1)" and t2: "terminate ?k (snd ?r2) = Some (z a2)"
    using nlt a1 a2 by (simp_all add: terminate_def z_def)
  have r1: "grub_vsnprintf_real mem (Some b1) ?k fmt args = (Inr L, Some (z a1))"
    using c1 t1 L by (simp add: grub_vsnprintf_real_loop Let_def)
  have r2: "grub_vsnprintf_real mem (Some b2) ?k fmt args = (Inr L, Some (z a2))"
    using c2 t2 L by (simp add: grub_vsnprintf_real_loop Let_def)
  have below: "z a1 i = z a2 i" if "i < nat (sint L)" for i
    using ag [of i] that k by (simp add: z_def)
  have above: "z a1 i = b1 i" if "nat (sint L) \<le> i" for i
  proof (cases "?k = 0")
    case True
    then show ?thesis using f1 [of i] that k by (simp add: z_def)
  next
    case False
    then have "unat (?k - 1) < unat ?k" by (rule unat_minus_one_less)
    then show ?thesis using f1 [of i] that k by (simp add: z_def)
  qed
  from r1 r2 below above show ?thesis by blast
qed

theorem grub_vsnprintf_real_dry_run_length_witness:
  "fst (grub_vsnprintf_real no_strings None 0 (cstr ''%d|'')
      \<lparr>args_ptr = [42], args_count = 1\<rparr>) = Inr 3 \<and>
   0 \<le> sint (3 :: cint) \<and>
   grub_vsnprintf_real no_strings (Some blank) 3 (cstr ''%d|'')
      \<lparr>args_ptr = [42], args_count = 1\<rparr> =
     (Inr 3, Some (blank(0 := B CHR ''4'', 1 := B CHR ''2'', 2 := 0))) \<and>
   (\<exists>b1' b2'.
      grub_vsnprintf_real no_strings (Some blank) (scast (3 :: cint)) (cstr ''%d|'')
        \<lparr>args_ptr = [42], args_count = 1\<rparr> = (Inr 3, Some b1') \<and>
      grub_vsnprintf_real no_strings (Some (\<lambda>i. 0)) (scast (3 :: cint)) (cstr ''%d|'')
        \<lparr>args_ptr = [42], args_count = 1\<rparr> = (Inr 3, Some b2') \<and>
      b1' 0 = b2' 0 \<and> b1' 1 = b2' 1 \<and> b1' 2 = b2' 2 \<and> b1' 3 = blank 3)"
proof -
  let ?args = "\<lparr>args_ptr = [42], args_count = 1\<rparr>"
  have dry: "fst (grub_vsnprintf_real no_strings None 0 (cstr ''%d|'') ?args) = Inr 3"
    by (simp add: render_eval)
  have nn: "0 \<le> sint (3 :: cint)" by simp
  have e: "grub_vsnprintf_real no_strings (Some blank) 3 (cstr ''%d|'') ?args =
     (Inr 3, Some (blank(0 := B CHR ''4'', 1 := B CHR ''2'', 2 := 0)))"
    by (simp add: render_eval)
  from grub_vsnprintf_real_dry_run_length [OF dry nn, of blank "\<lambda>i. 0"]
  obtain b1' b2' where
    "grub_vsnprintf_real no_strings (Some blank) (scast (3 :: cint)) (cstr ''%d|'') ?args
       = (Inr 3, Some b1')"
    "grub_vsnprintf_real no_strings (Some (\<lambda>i. 0)) (scast (3 :: cint)) (cstr ''%d|'') ?args
       = (Inr 3, Some b2')"
    "\<forall>i. i < nat (sint (3 :: cint)) \<longrightarrow> b1' i = b2' i"
    "\<forall>i. nat (sint (3 :: cint)) \<le> i \<longrightarrow> b1' i = blank i"
    by blast
  then have "\<exists>b1' b2'.
      grub_vsnprintf_real no_strings (Some blank) (scast (3 :: cint)) (cstr ''%d|'') ?args
        = (Inr 3, Some b1') \<and>
      grub_vsnprintf_real no_strings (Some (\<lambda>i. 0)) (scast (3 :: cint)) (cstr ''%d|'') ?args
        = (Inr 3, Some b2') \<and>
      b1' 0 = b2' 0 \<and> b1' 1 = b2' 1 \<and> b1' 2 = b2' 2 \<and> b1' 3 = blank 3"
    by (intro exI [of _ b1'] exI [of _ b2']) simp
  with dry nn e show ?thesis by blast
qed

text \<open>
  Claim C5, as the code has it. When a destination is supplied, the capacity is
  not zero and the run is not stopped by a fault, the result holds a NUL at index
  \<open>min (logical length) (capacity - 1)\<close>. With capacity zero the destination is
  returned exactly as it was: no terminator is stored.
\<close>

theorem grub_vsnprintf_real_terminator:
  assumes "vsnprintf_loop max_len mem args fmt 0 \<lparr>str = Some b, count = 0\<rparr> = (None, s)"
  shows "(0 < max_len \<longrightarrow>
            (\<exists>b'. grub_vsnprintf_real mem (Some b) max_len fmt args =
                    (Inr (ucast (count s)), Some b') \<and>
                  b' (min (unat (count s)) (unat max_len - 1)) = 0)) \<and>
         (max_len = 0 \<longrightarrow>
            grub_vsnprintf_real mem (Some b) max_len fmt args =
              (Inr (ucast (count s)), Some b))"
proof -
  have kp: "kept max_len b s"
    using vsnprintf_loop_kept [of max_len b mem args fmt 0 0] assms by simp
  then obtain a where a: "str s = Some a" and fr: "\<And>i. unat max_len \<le> i \<Longrightarrow> a i = b i"
    by (auto simp: kept_def)
  have r: "grub_vsnprintf_real mem (Some b) max_len fmt args =
             (Inr (ucast (count s)), terminate max_len s)"
    using assms by (simp add: grub_vsnprintf_real_loop Let_def)
  have 1: "\<exists>b'. terminate max_len s = Some b' \<and>
             b' (min (unat (count s)) (unat max_len - 1)) = 0" if pos: "0 < max_len"
  proof (cases "count s < max_len")
    case True
    then have "unat (count s) < unat max_len" by (simp add: word_less_nat_alt)
    then have "min (unat (count s)) (unat max_len - 1) = unat (count s)" by simp
    then show ?thesis using True a by (simp add: terminate_def)
  next
    case False
    then have "unat max_len \<le> unat (count s)" by (simp add: word_less_nat_alt)
    then have m: "min (unat (count s)) (unat max_len - 1) = unat max_len - 1" by simp
    have "max_len \<noteq> 0" using pos by auto
    then have "unat (max_len - 1) = unat max_len - 1" by (simp add: unat_minus_one)
    then show ?thesis using False a pos m by (simp add: terminate_def)
  qed
  have 2: "terminate max_len s = Some b" if z: "max_len = 0"
  proof -
    have "a = b" using fr z by (intro ext) simp
    then show ?thesis using a z by (simp add: terminate_def)
  qed
  from r 1 2 show ?thesis by auto
qed

theorem grub_vsnprintf_real_terminator_witness:
  "vsnprintf_loop 2 no_strings \<lparr>args_ptr = [], args_count = 0\<rparr> (cstr ''abc'') 0
      \<lparr>str = Some blank, count = 0\<rparr> =
     (None, \<lparr>str = Some (blank(0 := B CHR ''a'', 1 := B CHR ''b'')), count = 3\<rparr>) \<and>
   (0 :: u64) < 2 \<and>
   (\<exists>b'. grub_vsnprintf_real no_strings (Some blank) 2 (cstr ''abc'')
            \<lparr>args_ptr = [], args_count = 0\<rparr> = (Inr 3, Some b') \<and> b' 1 = 0)"
proof -
  let ?args = "\<lparr>args_ptr = [], args_count = 0\<rparr>"
  have e: "vsnprintf_loop 2 no_strings ?args (cstr ''abc'') 0 \<lparr>str = Some blank, count = 0\<rparr> =
     (None, \<lparr>str = Some (blank(0 := B CHR ''a'', 1 := B CHR ''b'')), count = 3\<rparr>)"
    by (simp add: render_eval)
  have p: "(0 :: u64) < 2" by simp
  from grub_vsnprintf_real_terminator [OF e] p e show ?thesis by simp
qed

text \<open>
  The claim as stated fails for capacity zero: rendering \<^verbatim>\<open>"a"\<close> into a destination
  of capacity 0 returns 1 and leaves the destination untouched, so there is no NUL
  at index 0 nor at index 1.
\<close>

theorem grub_vsnprintf_real_terminator_counterexample:
  "grub_vsnprintf_real no_strings (Some blank) 0 (cstr ''a'')
     \<lparr>args_ptr = [], args_count = 0\<rparr> = (Inr 1, Some blank) \<and>
   blank 0 \<noteq> 0 \<and> blank 1 \<noteq> 0"
  by (simp add: render_eval blank_def)

subsection \<open>Padding\<close>

lemma read_params_fill:
  assumes "grub_isdigit d" and "pre = [] \<or> pre = [B CHR ''-'']"
    and "read_params (pre @ d # fmt) init_fspec = Some (fmt', sp)"
  shows "rightfill sp = (pre \<noteq> []) \<and>
         zerofill sp = (if d = B CHR ''0'' then B CHR ''0'' else B CHR '' '')"
proof -
  have nd: "d \<noteq> B CHR ''-''" using assms(1) by (auto simp: grub_isdigit_def)
  show ?thesis
    using assms nd
    by (auto simp: read_params_def deref_def init_fspec_def Let_def
        split: if_splits option.splits)
qed

lemma takeWhile_nonzero: "0 \<notin> set tmp \<Longrightarrow> takeWhile (\<lambda>c. c \<noteq> 0) tmp = tmp"
  by (induction tmp) auto

lemma convert_integer_left:
  assumes "rightfill sp"
    and "c = B CHR ''d'' \<or> c = B CHR ''u'' \<or> c = B CHR ''x'' \<or> c = B CHR ''X''"
  shows "\<exists>tmp. grub_lltoa c curarg = Some tmp \<and>
     convert max_len mem c sp curarg s =
       (None,
        write_fill max_len
          (unat (if of_nat (length tmp) < (ucast (format1 sp) :: u64)
                 then ucast (format1 sp) - of_nat (length tmp) else (0 :: u64)))
          (zerofill sp) (write_string max_len tmp s))"
proof -
  obtain tmp where t: "grub_lltoa c curarg = Some tmp" and nz: "0 \<notin> set tmp"
    using grub_lltoa_Some by blast
  have "convert max_len mem c sp curarg s = conv_integer max_len c sp curarg s"
    using assms(2) by (auto simp: convert_def)
  then show ?thesis
    using t assms(1) takeWhile_nonzero [OF nz] by (simp add: conv_integer_def Let_def)
qed

text \<open>
  Claim C6, as the code has it. The flag \<^verbatim>\<open>-\<close> does not touch the fill byte. For a
  left-justified \<^verbatim>\<open>d\<close>, \<^verbatim>\<open>u\<close>, \<^verbatim>\<open>x\<close> or \<^verbatim>\<open>X\<close> conversion with a width, the digits
  come first and the padding on the right is made of the fill byte chosen while
  the width was read: \<^verbatim>\<open>0\<close> when the width's digit run begins with \<^verbatim>\<open>0\<close>, a space
  otherwise.
\<close>

theorem left_justified_padding:
  assumes "grub_isdigit d"
    and "read_params (B CHR ''-'' # d # fmt) init_fspec = Some (fmt', sp)"
    and "c = B CHR ''d'' \<or> c = B CHR ''u'' \<or> c = B CHR ''x'' \<or> c = B CHR ''X''"
  shows "rightfill sp \<and>
     zerofill sp = (if d = B CHR ''0'' then B CHR ''0'' else B CHR '' '') \<and>
     (\<exists>tmp. grub_lltoa c curarg = Some tmp \<and>
        convert max_len mem c sp curarg s =
          (None,
           write_fill max_len
             (unat (if of_nat (length tmp) < (ucast (format1 sp) :: u64)
                    then ucast (format1 sp) - of_nat (length tmp) else (0 :: u64)))
             (zerofill sp) (write_string max_len tmp s)))"
proof -
  have "read_params ([B CHR ''-''] @ d # fmt) init_fspec = Some (fmt', sp)"
    using assms(2) by simp
  from read_params_fill [OF assms(1) _ this]
  have f: "rightfill sp = ([B CHR ''-''] \<noteq> []) \<and>
         zerofill sp = (if d = B CHR ''0'' then B CHR ''0'' else B CHR '' '')"
    by simp
  then have r: "rightfill sp" by simp
  from f convert_integer_left [OF r assms(3)] show ?thesis by simp
qed

theorem left_justified_padding_witness:
  "grub_isdigit (B CHR ''0'') \<and>
   read_params (cstr ''-05d'') init_fspec =
     Some (cstr ''d'', \<lparr>format1 = 5, format2 = NOT 0, zerofill = B CHR ''0'', rightfill = True\<rparr>) \<and>
   grub_lltoa (B CHR ''d'') 42 = Some (cstr ''42'') \<and>
   convert 10 no_strings (B CHR ''d'')
     \<lparr>format1 = 5, format2 = NOT 0, zerofill = B CHR ''0'', rightfill = True\<rparr> 42
     \<lparr>str = Some blank, count = 0\<rparr> =
       (None, \<lparr>str = Some (blank(0 := B CHR ''4'', 1 := B CHR ''2'', 2 := B CHR ''0'',
                                  3 := B CHR ''0'', 4 := B CHR ''0'')), count = 5\<rparr>)"
proof -
  let ?sp = "\<lparr>format1 = 5, format2 = NOT 0, zerofill = B CHR ''0'', rightfill = True\<rparr>"
  have d: "grub_isdigit (B CHR ''0'')" by (simp add: grub_isdigit_def)
  have p: "read_params (B CHR ''-'' # B CHR ''0'' # cstr ''5d'') init_fspec = Some (cstr ''d'', ?sp)"
    by (simp add: render_eval)
  have c: "B CHR ''d'' = B CHR ''d'' \<or> B CHR ''d'' = B CHR ''u'' \<or> B CHR ''d'' = B CHR ''x''
      \<or> B CHR ''d'' = B CHR ''X''" by simp
  have l: "grub_lltoa (B CHR ''d'') 42 = Some (cstr ''42'')" by (simp add: render_eval)
  from left_justified_padding [where d = "B CHR ''0''" and fmt = "cstr ''5d''" and fmt' = "cstr ''d''"
      and sp = ?sp and c = "B CHR ''d''" and curarg = 42 and max_len = 10 and mem = no_strings
      and s = "\<lparr>str = Some blank, count = 0\<rparr>", OF d p c] d p l
  show ?thesis by (simp add: write_char_def write_fill_numeral word_less_nat_alt unat_max_u32)
qed

text \<open>
  The claim as stated fails on its own example: 42 under \<^verbatim>\<open>"%-05d"\<close> is rendered as
  \<^verbatim>\<open>42000\<close>, not as \<^verbatim>\<open>42\<close> and three spaces.
\<close>

theorem left_justified_padding_counterexample:
  "grub_vsnprintf_real no_strings (Some blank) 10 (cstr ''%-05d'')
     \<lparr>args_ptr = [42], args_count = 1\<rparr> =
     (Inr 5, Some (blank(0 := B CHR ''4'', 1 := B CHR ''2'', 2 := B CHR ''0'',
                         3 := B CHR ''0'', 4 := B CHR ''0'', 5 := 0))) \<and>
   B CHR ''0'' \<noteq> B CHR '' ''"
  by (simp add: render_eval)

text \<open>
  Claim C7, as the code has it. The case \<^verbatim>\<open>s\<close> pads with the same fill byte as the
  integer conversions: \<^verbatim>\<open>0\<close> when the width's digit run begins with \<^verbatim>\<open>0\<close>, a space
  otherwise, on the left when right-justified and on the right under the flag
  \<^verbatim>\<open>-\<close>.
\<close>

theorem string_padding:
  assumes "grub_isdigit d" and "pre = [] \<or> pre = [B CHR ''-'']"
    and "read_params (pre @ d # fmt) init_fspec = Some (fmt', sp)"
    and "(if curarg = 0 then Some (cstr ''(null)'') else mem curarg) = Some p"
  defines "len \<equiv> (of_nat (length (takeWhile (\<lambda>c. c \<noteq> 0) (take (unat (format2 sp)) p))) :: u64)"
  defines "fill \<equiv> (if len < ucast (format1 sp) then ucast (format1 sp) - len else (0 :: u64))"
  shows "zerofill sp = (if d = B CHR ''0'' then B CHR ''0'' else B CHR '' '') \<and>
     convert max_len mem (B CHR ''s'') sp curarg s =
       (None,
        if pre = []
        then write_string max_len (take (unat len) p)
               (write_fill max_len (unat fill) (zerofill sp) s)
        else write_fill max_len (unat fill) (zerofill sp)
               (write_string max_len (take (unat len) p) s))"
proof -
  have f: "rightfill sp = (pre \<noteq> []) \<and>
         zerofill sp = (if d = B CHR ''0'' then B CHR ''0'' else B CHR '' '')"
    using assms(1-3) by (rule read_params_fill)
  have "convert max_len mem (B CHR ''s'') sp curarg s = conv_s max_len mem sp curarg s"
    by (simp add: convert_def)
  then show ?thesis
    using f assms(4) by (simp add: conv_s_def Let_def len_def fill_def)
qed

theorem string_padding_witness:
  "grub_isdigit (B CHR ''0'') \<and>
   read_params (cstr ''05s'') init_fspec =
     Some (cstr ''s'', \<lparr>format1 = 5, format2 = NOT 0, zerofill = B CHR ''0'', rightfill = False\<rparr>) \<and>
   convert 10 (no_strings(100 := Some (cstr ''ab''))) (B CHR ''s'')
     \<lparr>format1 = 5, format2 = NOT 0, zerofill = B CHR ''0'', rightfill = False\<rparr> 100
     \<lparr>str = Some blank, count = 0\<rparr> =
       (None, \<lparr>str = Some (blank(0 := B CHR ''0'', 1 := B CHR ''0'', 2 := B CHR ''0'',
                                  3 := B CHR ''a'', 4 := B CHR ''b'')), count = 5\<rparr>)"
proof -
  let ?sp = "\<lparr>format1 = 5, format2 = NOT 0, zerofill = B CHR ''0'', rightfill = False\<rparr>"
  let ?mem = "no_strings(100 := Some (cstr ''ab''))"
  have d: "grub_isdigit (B CHR ''0'')" by (simp add: grub_isdigit_def)
  have e: "([] :: byte list) = [] \<or> ([] :: byte list) = [B CHR ''-'']" by simp
  have p: "read_params ([] @ B CHR ''0'' # cstr ''5s'') init_fspec = Some (cstr ''s'', ?sp)"
    by (simp add: render_eval)
  have m: "(if (100 :: u64) = 0 then Some (cstr ''(null)'') else ?mem 100) = Some (cstr ''ab'')"
    by simp
  from string_padding [where d = "B CHR ''0''" and pre = "[]" and fmt = "cstr ''5s''"
      and fmt' = "cstr ''s''" and sp = ?sp and curarg = 100 and mem = ?mem and p = "cstr ''ab''"
      and max_len = 10 and s = "\<lparr>str = Some blank, count = 0\<rparr>", OF d e p m] d p
  show ?thesis by (simp add: write_char_def write_fill_numeral word_less_nat_alt unat_max_u32)
qed

text \<open>
  The claim as stated fails on its own example: \<^verbatim>\<open>"ab"\<close> under \<^verbatim>\<open>"%05s"\<close> is rendered
  as \<^verbatim>\<open>000ab\<close>.
\<close>

theorem string_padding_counterexample:
  "grub_vsnprintf_real (no_strings(100 := Some (cstr ''ab''))) (Some blank) 10 (cstr ''%05s'')
     \<lparr>args_ptr = [100], args_count = 1\<rparr> =
     (Inr 5, Some (blank(0 := B CHR ''0'', 1 := B CHR ''0'', 2 := B CHR ''0'',
                         3 := B CHR ''a'', 4 := B CHR ''b'', 5 := 0))) \<and>
   B CHR ''0'' \<noteq> B CHR '' ''"
  by (simp add: render_eval)

subsection \<open>The value \<^verbatim>\<open>grub_vsnprintf\<close> returns\<close>

lemma replicate_numeral_unfold:
  "replicate (numeral k) x = x # replicate (pred_numeral k) x"
  by (simp add: numeral_eq_Suc)

lemmas parse_eval = replicate_numeral_unfold
  grub_vsnprintf_def parse_printf_args_def
  count_loop.simps [of "[]"] count_loop.simps [of "_ # _"]
  type_loop.simps [of _ "[]"] type_loop.simps [of _ "_ # _"]
  skip_params_def skip_char_def skip_rest_def positional_def conversion_type_def
  type_plus_def type_of_code_def is_conversion_def

lemma ucast_scast_cint: "(ucast (scast r :: u64) :: cint) = r"
proof (rule bit_word_eqI)
  fix n assume "n < LENGTH(32)"
  then have "n < 31 \<or> n = 31" by auto
  then show "bit (ucast (scast r :: u64) :: cint) n = bit r n"
    by (auto simp: bit_simps min_def)
qed

lemma grub_vsnprintf_real_fst:
  "fst (grub_vsnprintf_real mem d1 n1 fmt args) = fst (grub_vsnprintf_real mem d2 n2 fmt args)"
  using vsnprintf_loop_count [of n1 mem args fmt 0 d1 0 n2 d2]
  by (simp add: grub_vsnprintf_real_loop Let_def split: option.splits)

lemma grub_vsnprintf_clamp:
  assumes "fst (grub_vsnprintf mem calloc_ok None 0 fmt ap) = Inr L"
  shows "(\<exists>args. parse_printf_args calloc_ok fmt ap = Inr args \<and>
            L = ucast (count (snd (vsnprintf_loop 0 mem args fmt 0 \<lparr>str = None, count = 0\<rparr>)))) \<and>
         fst (grub_vsnprintf mem calloc_ok (Some b) n fmt ap) =
           Inr (if (scast L :: u64) < n then L else ucast n)"
proof -
  obtain args where p: "parse_printf_args calloc_ok fmt ap = Inr args"
    using assms by (cases "parse_printf_args calloc_ok fmt ap") (simp_all add: grub_vsnprintf_def)
  obtain r0 m0 where d: "grub_vsnprintf_real mem None 0 fmt args = (r0, m0)" by fastforce
  have r0: "r0 = Inr L"
    using assms p d by (cases r0) (simp_all add: grub_vsnprintf_def Let_def ucast_scast_cint)
  have cnt: "L = ucast (count (snd (vsnprintf_loop 0 mem args fmt 0 \<lparr>str = None, count = 0\<rparr>)))"
    using d r0 by (simp add: grub_vsnprintf_real_loop Let_def split: option.splits)
  obtain r1 m1 where e: "grub_vsnprintf_real mem (Some b) n fmt args = (r1, m1)" by fastforce
  have "r1 = r0" using grub_vsnprintf_real_fst [of mem "Some b" n fmt args None 0] d e by simp
  then have "fst (grub_vsnprintf mem calloc_ok (Some b) n fmt ap) =
           Inr (if (scast L :: u64) < n then L else ucast n)"
    using p e r0 by (simp add: grub_vsnprintf_def Let_def ucast_scast_cint)
  with p cnt show ?thesis by blast
qed

lemma unat_ucast_small:
  fixes c :: u64
  assumes "unat c < 2147483648"
  shows "unat (ucast c :: cint) = unat c"
proof -
  have "unat (ucast c :: cint) = take_bit LENGTH(32) (unat c)" by (rule unsigned_ucast_eq)
  also have "\<dots> = unat c" using assms by (simp add: take_bit_nat_eq_self)
  finally show ?thesis .
qed

lemma sint_small:
  fixes w :: cint
  assumes "unat w < 2147483648"
  shows "sint w = int (unat w)"
proof -
  have "int (unat w) < 2147483648" using assms by linarith
  then have lt: "uint w < 2 ^ 31" by (simp only: uint_nat) simp
  have ge: "- (2 ^ 31) \<le> uint w" by (rule order_trans [of _ 0]) simp_all
  have "sint w = signed_take_bit (LENGTH(32) - Suc 0) (uint w)" by (rule sint_uint)
  also have "\<dots> = signed_take_bit 31 (uint w)" by simp
  also have "\<dots> = uint w" using ge lt by (rule signed_take_bit_int_eq_self)
  finally show ?thesis by (simp only: uint_nat)
qed

lemma scast_ucast_small:
  fixes c :: u64
  assumes "unat c < 2147483648"
  shows "(scast (ucast c :: cint) :: u64) = c"
proof -
  have u: "unat (ucast c :: cint) = unat c" using assms by (rule unat_ucast_small)
  have "unat (ucast c :: cint) < 2147483648" using assms by (simp only: u)
  then have "sint (ucast c :: cint) = int (unat (ucast c :: cint))" by (rule sint_small)
  then have s: "sint (ucast c :: cint) = int (unat c)" by (simp only: u)
  have "(0 :: int) \<le> int (unat c)" by (rule of_nat_0_le_iff)
  then have "0 \<le> sint (ucast c :: cint)" by (simp only: s)
  then have "unat (scast (ucast c :: cint) :: u64) = nat (sint (ucast c :: cint))"
    by (rule unat_scast_nonneg)
  then have "unat (scast (ucast c :: cint) :: u64) = unat c" by (simp only: s nat_int)
  then show ?thesis by (simp only: word_unat_eq_iff)
qed

text \<open>
  Claim C2, as the code has it. Let the render of \<open>fmt\<close> complete with the logical
  count \<open>count s\<close>, and let that count be below \<open>2 ^ 31\<close>, so that it fits the \<^verbatim>\<open>int\<close>
  that \<^verbatim>\<open>grub_vsnprintf_real\<close> returns. Then \<^verbatim>\<open>grub_vsnprintf\<close> without a destination
  returns the count, and with a destination of capacity \<open>n\<close> it returns the smaller
  of the count and \<open>n\<close>: the count only while it is below the capacity, and the
  capacity otherwise.
\<close>

theorem grub_vsnprintf_return:
  assumes "parse_printf_args calloc_ok fmt ap = Inr args"
    and "vsnprintf_loop 0 mem args fmt 0 \<lparr>str = None, count = 0\<rparr> = (None, s)"
    and "unat (count s) < 2147483648"
  shows "(\<exists>r. fst (grub_vsnprintf mem calloc_ok None 0 fmt ap) = Inr r \<and>
              sint r = int (unat (count s))) \<and>
         (\<exists>r. fst (grub_vsnprintf mem calloc_ok (Some b) n fmt ap) = Inr r \<and>
              sint r = int (min (unat (count s)) (unat n)))"
proof -
  let ?L = "ucast (count s) :: cint"
  have dry: "fst (grub_vsnprintf mem calloc_ok None 0 fmt ap) = Inr ?L"
    using assms(1,2)
    by (simp add: grub_vsnprintf_def grub_vsnprintf_real_loop Let_def ucast_scast_cint)
  have uL: "unat ?L = unat (count s)" using assms(3) by (rule unat_ucast_small)
  have "unat ?L < 2147483648" using assms(3) by (simp only: uL)
  then have "sint ?L = int (unat ?L)" by (rule sint_small)
  then have sL: "sint ?L = int (unat (count s))" by (simp only: uL)
  have ret: "(scast ?L :: u64) = count s" using assms(3) by (rule scast_ucast_small)
  have dst: "fst (grub_vsnprintf mem calloc_ok (Some b) n fmt ap) =
           Inr (if count s < n then ?L else ucast n)"
    using grub_vsnprintf_clamp [OF dry, of b n] ret by simp
  have "sint (if count s < n then ?L else ucast n :: cint) = int (min (unat (count s)) (unat n))"
  proof (cases "count s < n")
    case True
    then have "unat (count s) < unat n" by (simp add: word_less_nat_alt)
    then have "min (unat (count s)) (unat n) = unat (count s)" by (simp add: min_def)
    then show ?thesis using True sL by (simp only: if_True)
  next
    case False
    then have le: "unat n \<le> unat (count s)" by (simp add: word_less_nat_alt)
    then have n31: "unat n < 2147483648" using assms(3) by simp
    have un: "unat (ucast n :: cint) = unat n" using n31 by (rule unat_ucast_small)
    have "unat (ucast n :: cint) < 2147483648" using n31 by (simp only: un)
    then have "sint (ucast n :: cint) = int (unat (ucast n :: cint))" by (rule sint_small)
    then have sn: "sint (ucast n :: cint) = int (unat n)" by (simp only: un)
    have "min (unat (count s)) (unat n) = unat n" using le by (simp add: min_def)
    then show ?thesis using False sn by (simp only: if_False)
  qed
  with dry dst sL show ?thesis by simp
qed

theorem grub_vsnprintf_return_witness:
  "parse_printf_args True (cstr ''ab%d'') [7] = Inr \<lparr>args_ptr = [7], args_count = 1\<rparr> \<and>
   vsnprintf_loop 0 no_strings \<lparr>args_ptr = [7], args_count = 1\<rparr> (cstr ''ab%d'') 0
       \<lparr>str = None, count = 0\<rparr> = (None, \<lparr>str = None, count = 3\<rparr>) \<and>
   unat (3 :: u64) < 2147483648 \<and>
   (\<exists>r. fst (grub_vsnprintf no_strings True None 0 (cstr ''ab%d'') [7]) = Inr r \<and> sint r = 3) \<and>
   (\<exists>r. fst (grub_vsnprintf no_strings True (Some blank) 2 (cstr ''ab%d'') [7]) = Inr r \<and>
        sint r = 2) \<and>
   (\<exists>r. fst (grub_vsnprintf no_strings True (Some blank) 9 (cstr ''ab%d'') [7]) = Inr r \<and>
        sint r = 3)"
proof -
  let ?args = "\<lparr>args_ptr = [7], args_count = 1\<rparr>"
  have p: "parse_printf_args True (cstr ''ab%d'') [7] = Inr ?args"
    by (simp add: parse_eval render_eval)
  have l: "vsnprintf_loop 0 no_strings ?args (cstr ''ab%d'') 0 \<lparr>str = None, count = 0\<rparr> =
      (None, \<lparr>str = None, count = 3\<rparr>)"
    by (simp add: render_eval)
  have c: "unat (count \<lparr>str = None, count = 3\<rparr>) < 2147483648" by simp
  from grub_vsnprintf_return [OF p l c, of blank 2] grub_vsnprintf_return [OF p l c, of blank 9]
    p l
  show ?thesis by simp
qed

text \<open>
  The claim as stated fails: \<^verbatim>\<open>"abc"\<close> needs 3 bytes, and with a destination of
  capacity 2 the call returns 2, not 3.
\<close>

theorem grub_vsnprintf_return_counterexample:
  "grub_vsnprintf no_strings True None 0 (cstr ''abc'') [] = (Inr 3, None) \<and>
   grub_vsnprintf no_strings True (Some blank) 2 (cstr ''abc'') [] =
     (Inr 2, Some (blank(0 := B CHR ''a'', 1 := 0)))"
  by (simp add: parse_eval render_eval)

subsection \<open>Conversion letters the renderer does not know\<close>

text \<open>
  The first pass of \<^verbatim>\<open>parse_printf_args\<close> steps over a directive whose last byte is
  none of \<^verbatim>\<open>p x X u d c C s\<close> without counting an argument for it.
\<close>

lemma count_loop_unknown:
  assumes "read_conv (skip_params fmt) = (c1, longfmt, fmt2)"
    and "\<not> is_conversion c1" and "c1 \<noteq> 0"
  shows "count_loop (B CHR ''%'' # fmt) k = count_loop fmt2 k"
  using assms by (simp add: count_loop.simps [of "_ # _"])

text \<open>
  Claim C8 against the code. Under \<^verbatim>\<open>"%q%d%d"\<close> with the arguments 300 and 7, the
  first pass counts two arguments: it does not count \<^verbatim>\<open>%q\<close>. The second pass and the
  renderer nevertheless give \<^verbatim>\<open>%q\<close> the slot 0 (\<^verbatim>\<open>curn = n++\<close> is undone only for
  \<^verbatim>\<open>%%\<close>), so the first \<^verbatim>\<open>%d\<close> renders the second argument, the second \<^verbatim>\<open>%d\<close> has no
  slot left and is skipped, and 300 is never rendered: the output is \<^verbatim>\<open>q7\<close>.
\<close>

theorem unknown_conversion_takes_slot:
  "count_loop (cstr ''%q%d%d'') 0 = Inr 2 \<and>
   parse_printf_args True (cstr ''%q%d%d'') [300, 7] =
     Inr \<lparr>args_ptr = [44, 7], args_count = 2\<rparr> \<and>
   grub_vsnprintf no_strings True (Some blank) 10 (cstr ''%q%d%d'') [300, 7] =
     (Inr 2, Some (blank(0 := B CHR ''q'', 1 := B CHR ''7'', 2 := 0)))"
  by (simp add: parse_eval render_eval)

section \<open>The values \<^verbatim>\<open>grub_strtoull\<close> returns\<close>

text \<open>
  The part of \<^verbatim>\<open>grub_strtoull\<close> before its loop: the string behind the white space
  and the prefix (the pointer \<^verbatim>\<open>str\<close> when the loop starts, here \<open>strp\<close>), and the base
  the loop runs with.
\<close>

definition strtoull_start :: "byte list \<Rightarrow> cint \<Rightarrow> byte list \<times> cint" where
  "strtoull_start str0 base0 =
     (let strp = dropWhile grub_isspace str0;
          (strp, base) =
            (if deref strp = B CHR ''0'' then
               (if deref (tl strp) = B CHR ''x'' then
                  (if base0 = 0 \<or> base0 = 16 then (tl (tl strp), 16) else (strp, base0))
                else if base0 = 0 \<and> sint (deref (tl strp)) \<ge> sint (B CHR ''0'')
                        \<and> sint (deref (tl strp)) \<le> sint (B CHR ''7'')
                then (strp, 8) else (strp, base0))
             else (strp, base0))
      in (strp, if base = 0 then 10 else base))"

lemma grub_strtoull_start:
  "strtoull_start str0 base0 = (strp, base) \<Longrightarrow>
   grub_strtoull str0 base0 = strtoull_loop base strp 0 False"
  by (auto simp: strtoull_start_def grub_strtoull_def Let_def split: if_splits)

text \<open>
  The number a digit sequence denotes, stated apart from the loop: the digits are
  \<^verbatim>\<open>0\<close> to \<^verbatim>\<open>9\<close> and the letters, in either case, for 10 to 35; a byte is a digit of
  a base when its value is below the base; the digit sequence of a string is its
  longest prefix of digits, and its value is read most significant digit first.
\<close>

definition digit_value :: "byte \<Rightarrow> nat option" where
  "digit_value c =
     (let v = unat c in
      if 48 \<le> v \<and> v \<le> 57 then Some (v - 48)
      else if 97 \<le> v \<and> v \<le> 122 then Some (v - 97 + 10)
      else if 65 \<le> v \<and> v \<le> 90 then Some (v - 65 + 10)
      else None)"

definition is_digit :: "nat \<Rightarrow> byte \<Rightarrow> bool" where
  "is_digit b c = (case digit_value c of None \<Rightarrow> False | Some k \<Rightarrow> k < b)"

definition digit_num :: "byte \<Rightarrow> nat" where
  "digit_num c = (case digit_value c of None \<Rightarrow> 0 | Some k \<Rightarrow> k)"

definition digit_sequence :: "nat \<Rightarrow> byte list \<Rightarrow> byte list" where
  "digit_sequence b strp = takeWhile (is_digit b) strp"

fun digits_from :: "nat \<Rightarrow> nat \<Rightarrow> byte list \<Rightarrow> nat" where
  "digits_from acc b [] = acc"
| "digits_from acc b (c # cs) = digits_from (acc * b + digit_num c) b cs"

definition digits_value :: "nat \<Rightarrow> byte list \<Rightarrow> nat" where
  "digits_value b ds = digits_from 0 b ds"

text \<open>
  The digit of the loop body, as the code computes it, against the digit of the
  spec. It is checked for each of the 256 bytes.
\<close>

definition digit_ok :: "byte \<Rightarrow> bool" where
  "digit_ok c =
     (let digit0 = (scast (grub_tolower (scast c) - scast (B CHR ''0'')) :: u64);
          brk = (digit0 > 9 \<and> \<not> digit0 \<ge> scast (B CHR ''a'') - scast (B CHR ''0''));
          digit = (if digit0 \<ge> scast (B CHR ''a'') - scast (B CHR ''0'')
                   then digit0 + (scast (B CHR ''0'') - scast (B CHR ''a'') + 10)
                   else digit0)
      in case digit_value c of
           None \<Rightarrow> brk \<or> 36 \<le> unat digit
         | Some k \<Rightarrow> \<not> brk \<and> unat digit = k)"

lemma all_less_numeral:
  "(\<forall>n < numeral k. P n) = (P (pred_numeral k) \<and> (\<forall>n < pred_numeral k. P n))"
  by (simp add: numeral_eq_Suc All_less_Suc)

lemma unat_max_u64: "unat (- 1 :: u64) = 18446744073709551615"
proof -
  have "(- 1 :: u64) = 18446744073709551615" by simp
  then have "unat (- 1 :: u64) = unat (18446744073709551615 :: u64)" by (simp only:)
  then show ?thesis by simp
qed

lemma digit_ok_all: "\<forall>n < 256. digit_ok (of_nat n)"
  apply (simp only: all_less_numeral pred_numeral_simps BitM.simps Num.BitM_plus_one less_one
      simp_thms of_nat_numeral of_nat_0 of_nat_1 numeral_One not_less_zero all_simps)
  apply (simp add: digit_ok_def digit_value_def grub_tolower_def Let_def
      word_le_nat_alt word_less_nat_alt unat_max_u64)
  done

lemma digit_ok_byte: "digit_ok c"
proof -
  have "unat c < 2 ^ LENGTH(8)" by (rule unsigned_less)
  then have "unat c < 256" by simp
  then have "digit_ok (of_nat (unat c))" using digit_ok_all by blast
  then show ?thesis by simp
qed

lemma unat_base:
  assumes "1 \<le> sint (base :: cint)"
  shows "unat (scast base :: u64) = nat (sint base)"
  using assms by (intro unat_scast_nonneg) simp

lemma overflow_test:
  fixes N b k M :: nat
  assumes "0 < b" and "k \<le> M"
  shows "((M - k) div b < N) = (M < N * b + k)"
proof -
  have "((M - k) div b < N) = (M - k < N * b)" using assms(1) by (rule div_less_iff_less_mult)
  also have "\<dots> = (M < N * b + k)" using assms(2) by auto
  finally show ?thesis .
qed

lemma strtoull_loop_stop:
  assumes "1 \<le> sint base" and "sint base \<le> 36"
    and "\<not> is_digit (nat (sint base)) c"
  shows "strtoull_loop base (c # cs) num found = strtoull_end (c # cs) num found"
proof -
  have ub: "unat (scast base :: u64) = nat (sint base)" using assms(1) by (rule unat_base)
  have b36: "nat (sint base) \<le> 36" using assms(2) by simp
  show ?thesis
  proof (cases "digit_value c")
    case None
    then show ?thesis
      using digit_ok_byte [of c] ub b36
      by (auto simp: digit_ok_def Let_def word_le_nat_alt word_less_nat_alt)
  next
    case (Some k)
    then have "nat (sint base) \<le> k" using assms(3) by (simp add: is_digit_def)
    then show ?thesis
      using digit_ok_byte [of c] ub Some
      by (auto simp: digit_ok_def Let_def word_le_nat_alt word_less_nat_alt)
  qed
qed

lemma unat_of_nat_u64:
  "n \<le> 18446744073709551615 \<Longrightarrow> unat (of_nat n :: u64) = n"
  by (simp add: unat_of_nat)

lemma strtoull_loop_digit:
  assumes "1 \<le> sint base" and "sint base \<le> 36"
    and "is_digit (nat (sint base)) c"
  shows "strtoull_loop base (c # cs) num found =
     (if 18446744073709551615 < unat num * nat (sint base) + digit_num c
      then Failed GRUB_ERR_OUT_OF_RANGE (NOT 0)
      else strtoull_loop base cs (of_nat (unat num * nat (sint base) + digit_num c)) True)"
proof -
  let ?b = "nat (sint base)" and ?N = "unat num"
  obtain k where dv: "digit_value c = Some k" and kb: "k < ?b"
    using assms(3) by (auto simp: is_digit_def split: option.splits)
  have dn: "digit_num c = k" using dv by (simp add: digit_num_def)
  have ub: "unat (scast base :: u64) = ?b" using assms(1) by (rule unat_base)
  have bpos: "0 < ?b" using assms(1) by simp
  have b36: "?b \<le> 36" using assms(2) by simp
  have bnz: "(scast base :: u64) \<noteq> 0" using ub bpos by (metis unat_eq_zero not_less_zero)
  have c0: "c \<noteq> 0" using dv by (auto simp: digit_value_def)
  define d0 where "d0 = (scast (grub_tolower (scast c) - scast (B CHR ''0'')) :: u64)"
  define dg where "dg = (if d0 \<ge> scast (B CHR ''a'') - scast (B CHR ''0'')
                       then d0 + (scast (B CHR ''0'') - scast (B CHR ''a'') + 10) else d0)"
  have ok: "\<not> (d0 > 9 \<and> \<not> d0 \<ge> scast (B CHR ''a'') - scast (B CHR ''0''))" and ud: "unat dg = k"
    using digit_ok_byte [of c] dv
    by (auto simp: digit_ok_def Let_def d0_def dg_def split: if_splits)
  have nge: "\<not> dg \<ge> scast base" using ud ub kb by (simp add: word_le_nat_alt)
  have k64: "k \<le> 18446744073709551615" using kb b36 by simp
  have "dg \<le> - 1" by simp
  then have "unat (- 1 - dg) = unat (- 1 :: u64) - unat dg" by (rule unat_sub)
  then have um: "unat (NOT 0 - dg) = 18446744073709551615 - k" using ud by (simp add: unat_max_u64)
  have uq: "unat ((NOT 0 - dg) div scast base) = (18446744073709551615 - k) div ?b"
    using um ub by (simp only: unat_div)
  have test: "(num > (NOT 0 - dg) div scast base) = (18446744073709551615 < ?N * ?b + k)"
    using overflow_test [OF bpos k64, of ?N] uq by (simp only: word_less_nat_alt)
  have raw: "strtoull_loop base (c # cs) num found =
     (if c = 0 then strtoull_end (c # cs) num found
      else
        if d0 > 9 \<and> \<not> d0 \<ge> scast (B CHR ''a'') - scast (B CHR ''0'')
        then strtoull_end (c # cs) num found
        else
          if dg \<ge> scast base then strtoull_end (c # cs) num found
          else
            (case grub_divmod64 GRUB_DIVISION_IN_SOFTWARE (NOT 0 - dg) (scast base) of
               None \<Rightarrow> Trapped
             | Some (q, r) \<Rightarrow>
                 if num > q then Failed GRUB_ERR_OUT_OF_RANGE (NOT 0)
                 else strtoull_loop base cs (num * scast base + dg) True))"
    by (simp only: strtoull_loop.simps(2) Let_def d0_def dg_def)
  have step: "strtoull_loop base (c # cs) num found =
      (if num > (NOT 0 - dg) div scast base then Failed GRUB_ERR_OUT_OF_RANGE (NOT 0)
       else strtoull_loop base cs (num * scast base + dg) True)"
    unfolding raw
    using c0 ok nge grub_divmod64_div_mod [OF bnz, of GRUB_DIVISION_IN_SOFTWARE "NOT 0 - dg"]
    by auto
  have nxt: "num * scast base + dg = of_nat (?N * ?b + k)"
    if le: "?N * ?b + k \<le> 18446744073709551615"
  proof -
    have "unat num * unat (scast base :: u64) < 2 ^ LENGTH(64)" using le ub by simp
    then have "unat (num * scast base) = unat num * unat (scast base :: u64)"
      by (rule iffD1 [OF unat_mult_lem])
    then have m: "unat (num * scast base) = ?N * ?b" by (simp only: ub)
    have "unat (num * scast base) + unat dg < 2 ^ LENGTH(64)" using le m ud by simp
    then have "unat (num * scast base + dg) = unat (num * scast base) + unat dg"
      by (rule iffD1 [OF unat_add_lem])
    then have "unat (num * scast base + dg) = ?N * ?b + k" by (simp only: m ud)
    moreover have "unat (of_nat (?N * ?b + k) :: u64) = ?N * ?b + k"
      using le by (rule unat_of_nat_u64)
    ultimately show ?thesis by (simp only: word_unat_eq_iff)
  qed
  show ?thesis
    unfolding step test dn using nxt by (auto simp: not_less)
qed


lemma digits_from_ge: "0 < b \<Longrightarrow> acc \<le> digits_from acc b ds"
proof (induction ds arbitrary: acc)
  case Nil
  show ?case by simp
next
  case (Cons c cs)
  have "1 \<le> b" using Cons.prems by simp
  then have "acc * 1 \<le> acc * b" by (rule mult_le_mono2)
  then have "acc \<le> acc * b" by (simp only: mult_1_right)
  then have "acc \<le> acc * b + digit_num c" by (rule trans_le_add1)
  also have "\<dots> \<le> digits_from (acc * b + digit_num c) b cs" using Cons.prems by (rule Cons.IH)
  finally show ?case by simp
qed

lemma unat_le_max_u64: "unat (num :: u64) \<le> 18446744073709551615"
proof -
  have "unat num < 2 ^ LENGTH(64)" by (rule unsigned_less)
  then show ?thesis by simp
qed

lemma strtoull_loop_digits:
  assumes "1 \<le> sint base" and "sint base \<le> 36"
  shows "strtoull_loop base strp num found =
     (if 18446744073709551615 < digits_from (unat num) (nat (sint base)) (takeWhile (is_digit (nat (sint base))) strp)
      then Failed GRUB_ERR_OUT_OF_RANGE (NOT 0)
      else if found \<or> takeWhile (is_digit (nat (sint base))) strp \<noteq> []
      then Parsed (of_nat (digits_from (unat num) (nat (sint base)) (takeWhile (is_digit (nat (sint base))) strp)))
                  (dropWhile (is_digit (nat (sint base))) strp)
      else Failed GRUB_ERR_BAD_NUMBER 0)"
proof (induction strp arbitrary: num found)
  case Nil
  show ?case using unat_le_max_u64 [of num] by (simp add: strtoull_end_def not_less)
next
  case (Cons c cs)
  let ?b = "nat (sint base)"
  have bpos: "0 < ?b" using assms(1) by simp
  show ?case
  proof (cases "is_digit ?b c")
    case False
    have "strtoull_loop base (c # cs) num found = strtoull_end (c # cs) num found"
      using assms False by (rule strtoull_loop_stop)
    then show ?thesis
      using False unat_le_max_u64 [of num] by (simp add: strtoull_end_def not_less)
  next
    case True
    let ?n = "unat num * ?b + digit_num c"
    have st: "strtoull_loop base (c # cs) num found =
       (if 18446744073709551615 < ?n then Failed GRUB_ERR_OUT_OF_RANGE (NOT 0)
        else strtoull_loop base cs (of_nat ?n) True)"
      using assms True by (rule strtoull_loop_digit)
    have tw: "takeWhile (is_digit ?b) (c # cs) = c # takeWhile (is_digit ?b) cs"
      and dw: "dropWhile (is_digit ?b) (c # cs) = dropWhile (is_digit ?b) cs"
      using True by simp_all
    show ?thesis
    proof (cases "18446744073709551615 < ?n")
      case True
      have "?n \<le> digits_from ?n ?b (takeWhile (is_digit ?b) cs)" using bpos by (rule digits_from_ge)
      then have "18446744073709551615 < digits_from ?n ?b (takeWhile (is_digit ?b) cs)"
        using True by simp
      then show ?thesis unfolding st tw using True by simp
    next
      case False
      then have "?n \<le> 18446744073709551615" by simp
      then have u: "unat (of_nat ?n :: u64) = ?n" by (rule unat_of_nat_u64)
      show ?thesis
        unfolding st tw dw using False
        by (simp only: Cons.IH [of "of_nat ?n" True] u digits_from.simps if_False simp_thms list.simps)
    qed
  qed
qed


lemma strtoull_start_base:
  assumes "strtoull_start str0 base0 = (strp, base)"
    and "base0 = 0 \<or> (1 \<le> sint base0 \<and> sint base0 \<le> 36)"
  shows "1 \<le> sint base \<and> sint base \<le> 36"
  using assms by (auto simp: strtoull_start_def Let_def split: if_splits)

lemmas strtoull_eval = strtoull_start_def digit_sequence_def digits_value_def is_digit_def
  digit_value_def digit_num_def grub_isspace_def deref_def Let_def

text \<open>
  Claim C10. Let \<open>strp\<close> be the input behind the white space and the base prefix and
  \<open>base\<close> the base the loop runs with, for a caller's base of 0 or of 1 to 36; the
  digit sequence is the longest prefix of \<open>strp\<close> made of digits of that base. If it
  denotes a value above \<^verbatim>\<open>2^64 - 1\<close>, \<^verbatim>\<open>grub_strtoull\<close> signals
  \<^verbatim>\<open>GRUB_ERR_OUT_OF_RANGE\<close> and returns \<^verbatim>\<open>0xFFFFFFFFFFFFFFFF\<close>; if it is empty,
  \<^verbatim>\<open>grub_strtoull\<close> signals \<^verbatim>\<open>GRUB_ERR_BAD_NUMBER\<close>, a different error, and returns 0;
  in every other case it signals nothing, returns the value of the digit sequence
  and stores the position behind it through \<^verbatim>\<open>end\<close>.
\<close>

theorem grub_strtoull_errors:
  assumes "base0 = 0 \<or> (1 \<le> sint base0 \<and> sint base0 \<le> 36)"
    and "strtoull_start str0 base0 = (strp, base)"
  shows "(18446744073709551615 < digits_value (nat (sint base)) (digit_sequence (nat (sint base)) strp) \<longrightarrow>
            grub_strtoull str0 base0 = Failed GRUB_ERR_OUT_OF_RANGE 0xFFFFFFFFFFFFFFFF) \<and>
         (digit_sequence (nat (sint base)) strp = [] \<longrightarrow>
            grub_strtoull str0 base0 = Failed GRUB_ERR_BAD_NUMBER 0) \<and>
         (digit_sequence (nat (sint base)) strp \<noteq> [] \<and>
          digits_value (nat (sint base)) (digit_sequence (nat (sint base)) strp) \<le> 18446744073709551615 \<longrightarrow>
            grub_strtoull str0 base0 =
              Parsed (of_nat (digits_value (nat (sint base)) (digit_sequence (nat (sint base)) strp)))
                     (dropWhile (is_digit (nat (sint base))) strp)) \<and>
         GRUB_ERR_OUT_OF_RANGE \<noteq> GRUB_ERR_BAD_NUMBER"
proof -
  have b: "1 \<le> sint base" "sint base \<le> 36"
    using strtoull_start_base [OF assms(2) assms(1)] by simp_all
  have "grub_strtoull str0 base0 = strtoull_loop base strp 0 False"
    using assms(2) by (rule grub_strtoull_start)
  then show ?thesis
    by (simp add: strtoull_loop_digits [OF b] digit_sequence_def digits_value_def not_less)
qed

text \<open>
  The theorem at the decimal string of \<^verbatim>\<open>2^64\<close>, at a string with a prefix and no
  digit, and at the decimal string of \<^verbatim>\<open>2^64 - 1\<close> followed by a semicolon.
\<close>

theorem grub_strtoull_errors_witness:
  "strtoull_start (cstr ''18446744073709551616'') 10 = (cstr ''18446744073709551616'', 10) \<and>
   digits_value 10 (digit_sequence 10 (cstr ''18446744073709551616'')) = 18446744073709551616 \<and>
   grub_strtoull (cstr ''18446744073709551616'') 10 =
     Failed GRUB_ERR_OUT_OF_RANGE 0xFFFFFFFFFFFFFFFF \<and>
   strtoull_start (cstr '' 0xyz'') 0 = (cstr ''yz'', 16) \<and>
   digit_sequence 16 (cstr ''yz'') = [] \<and>
   grub_strtoull (cstr '' 0xyz'') 0 = Failed GRUB_ERR_BAD_NUMBER 0 \<and>
   strtoull_start (cstr ''18446744073709551615;'') 0 = (cstr ''18446744073709551615;'', 10) \<and>
   grub_strtoull (cstr ''18446744073709551615;'') 0 = Parsed 0xFFFFFFFFFFFFFFFF (cstr '';'')"
proof -
  have s1: "strtoull_start (cstr ''18446744073709551616'') 10 = (cstr ''18446744073709551616'', 10)"
    by (simp add: strtoull_eval)
  have s2: "strtoull_start (cstr '' 0xyz'') 0 = (cstr ''yz'', 16)"
    by (simp add: strtoull_eval)
  have s3: "strtoull_start (cstr ''18446744073709551615;'') 0 = (cstr ''18446744073709551615;'', 10)"
    by (simp add: strtoull_eval)
  show ?thesis
    using grub_strtoull_errors [OF _ s1] grub_strtoull_errors [OF _ s2] grub_strtoull_errors [OF _ s3]
    by (simp add: strtoull_eval)
qed
end
